theory Spec2Isabelle
  imports Main "HOL-Library.Word" "HOL-Library.Multiset"
begin

section \<open>Strings of the host language\<close>

text \<open>
  A JavaScript string is a sequence of 16-bit code units (UTF-16); \<open>length\<close> counts
  code units, as \<^verbatim>\<open>String.prototype.length\<close> does. A literal of the source is written
  \<open>S ''...''\<close>: all literals of the modelled files are ASCII.
\<close>

type_synonym jstring = "16 word list"

definition unit_of :: "char \<Rightarrow> 16 word" where
  "unit_of c = of_nat (of_char c)"

definition S :: "string \<Rightarrow> jstring" where
  "S s = map unit_of s"

definition between :: "16 word \<Rightarrow> 16 word \<Rightarrow> 16 word \<Rightarrow> bool" where
  "between lo hi c = (lo \<le> c \<and> c \<le> hi)"

text \<open>
  \<^verbatim>\<open>String.prototype.trim\<close> removes WhiteSpace and LineTerminator code units from both
  ends: TAB, VT, FF, SP, NBSP, ZWNBSP, the Unicode space separators, LF, CR, LS, PS.
\<close>

definition isWhiteSpace :: "16 word \<Rightarrow> bool" where
  "isWhiteSpace c =
     (between 0x9 0xD c \<or> c = 0x20 \<or> c = 0xA0 \<or> c = 0x1680 \<or> between 0x2000 0x200A c \<or>
      c = 0x2028 \<or> c = 0x2029 \<or> c = 0x202F \<or> c = 0x205F \<or> c = 0x3000 \<or> c = 0xFEFF)"

definition trim :: "jstring \<Rightarrow> jstring" where
  "trim s = rev (dropWhile isWhiteSpace (rev (dropWhile isWhiteSpace s)))"

text \<open>
  \<^verbatim>\<open>String.prototype.toLowerCase\<close>. The model lowers the letters A to Z and leaves every
  other code unit as it is. The platform also lowers letters outside ASCII; of those only
  U+212A (to \<open>k\<close>) and U+0130 (to \<open>i\<close> followed by U+0307) yield an ASCII letter. The
  source uses the lowered string only to search for the tokens \<open>iphone\<close>, \<open>ipad\<close>,
  \<open>ipod\<close>, \<open>android\<close>, \<open>chrome\<close>, \<open>chromium\<close> and \<open>crios\<close>: none contains \<open>k\<close>, and
  in none is \<open>i\<close> the last letter, so those searches give the same answer on the model's
  result as on the platform's.
\<close>

definition lower_unit :: "16 word \<Rightarrow> 16 word" where
  "lower_unit c = (if between 0x41 0x5A c then c + 0x20 else c)"

definition toLowerCase :: "jstring \<Rightarrow> jstring" where
  "toLowerCase s = map lower_unit s"

fun join :: "jstring \<Rightarrow> jstring list \<Rightarrow> jstring" where
  "join sep [] = []"
| "join sep [x] = x"
| "join sep (x # y # ys) = x @ sep @ join sep (y # ys)"

subsection \<open>Regular expressions\<close>

text \<open>
  The regular expression literals of the source use character classes, literals,
  bounded and unbounded repetition of a class, sequence, alternation, an optional group
  and the anchors \<^verbatim>\<open>^\<close> (always first) and \<^verbatim>\<open>$\<close>. None has a flag, so a class and
  \<^verbatim>\<open>.\<close> match one code unit, \<^verbatim>\<open>.\<close> matches everything but the line terminators
  LF, CR, LS and PS, and \<^verbatim>\<open>$\<close> matches at the end of the input only.
  \<open>run r s\<close> lists what is left of \<open>s\<close> after each way of matching \<open>r\<close> at its front.
\<close>

datatype cclass = Ranges "(16 word \<times> 16 word) list" | Dot

fun in_class :: "cclass \<Rightarrow> 16 word \<Rightarrow> bool" where
  "in_class (Ranges rs) c = list_ex (\<lambda>(lo, hi). between lo hi c) rs"
| "in_class Dot c = (c \<noteq> 0xA \<and> c \<noteq> 0xD \<and> c \<noteq> 0x2028 \<and> c \<noteq> 0x2029)"

datatype rx =
    Lit jstring
  | Rep cclass nat "nat option"
  | Seq rx rx
  | Alt rx rx
  | Opt rx
  | Eol

datatype regexp = FromStart rx | Anywhere rx

fun strip_prefix :: "jstring \<Rightarrow> jstring \<Rightarrow> jstring option" where
  "strip_prefix [] s = Some s"
| "strip_prefix (p # ps) [] = None"
| "strip_prefix (p # ps) (c # cs) = (if p = c then strip_prefix ps cs else None)"

fun run :: "rx \<Rightarrow> jstring \<Rightarrow> jstring list" where
  "run (Lit w) s = (case strip_prefix w s of None \<Rightarrow> [] | Some r \<Rightarrow> [r])"
| "run (Rep cl lo hi) s =
     (let n = length (takeWhile (in_class cl) s);
          m = (case hi of None \<Rightarrow> n | Some h \<Rightarrow> min n h)
      in map (\<lambda>k. drop k s) [lo ..< Suc m])"
| "run (Seq a b) s = concat (map (run b) (run a s))"
| "run (Alt a b) s = run a s @ run b s"
| "run (Opt a) s = run a s @ [s]"
| "run Eol s = (if s = [] then [s] else [])"

fun tails :: "'a list \<Rightarrow> 'a list list" where
  "tails [] = [[]]"
| "tails (x # xs) = (x # xs) # tails xs"

text \<open>\<^verbatim>\<open>RegExp.prototype.test\<close> of a regular expression without the global flag.\<close>

fun regexp_test :: "regexp \<Rightarrow> jstring \<Rightarrow> bool" where
  "regexp_test (FromStart r) s = (run r s \<noteq> [])"
| "regexp_test (Anywhere r) s = list_ex (\<lambda>t. run r t \<noteq> []) (tails s)"

subsection \<open>Numbers in template literals\<close>

text \<open>The decimal text of a non-negative integer, as a template literal prints it.\<close>

function decimal :: "nat \<Rightarrow> jstring" where
  "decimal n =
     (if n < 10 then [0x30 + of_nat n]
      else decimal (n div 10) @ [0x30 + of_nat (n mod 10)])"
  by pat_completeness auto
termination
  by (relation "measure (\<lambda>n. n)") auto

declare decimal.simps [simp del]

subsection \<open>Unicode: code points, UTF-8, percent-encoding\<close>

text \<open>
  The URL interfaces of the platform take their string arguments as scalar value strings:
  a surrogate code unit that is not half of a pair is replaced by U+FFFD before anything
  else happens. \<open>codePoints\<close> is that conversion, to the list of code points.
\<close>

type_synonym byte = "8 word"

definition isLead :: "16 word \<Rightarrow> bool" where
  "isLead c = between 0xD800 0xDBFF c"

definition isTrail :: "16 word \<Rightarrow> bool" where
  "isTrail c = between 0xDC00 0xDFFF c"

definition isSurrogate :: "16 word \<Rightarrow> bool" where
  "isSurrogate c = between 0xD800 0xDFFF c"

fun codePoints :: "jstring \<Rightarrow> nat list" where
  "codePoints [] = []"
| "codePoints [c] = [if isSurrogate c then 0xFFFD else unat c]"
| "codePoints (c # d # r) =
     (if isLead c \<and> isTrail d
      then (0x10000 + (unat c - 0xD800) * 0x400 + (unat d - 0xDC00)) # codePoints r
      else (if isSurrogate c then 0xFFFD else unat c) # codePoints (d # r))"

text \<open>\<^verbatim>\<open>String.prototype.isWellFormed\<close>: no surrogate outside a pair.\<close>

fun isWellFormed :: "jstring \<Rightarrow> bool" where
  "isWellFormed [] = True"
| "isWellFormed [c] = (\<not> isSurrogate c)"
| "isWellFormed (c # d # r) =
     (if isLead c \<and> isTrail d then isWellFormed r
      else \<not> isSurrogate c \<and> isWellFormed (d # r))"

definition fromCodePoint :: "nat \<Rightarrow> jstring" where
  "fromCodePoint cp =
     (if cp < 0x10000 then [of_nat cp]
      else [of_nat (0xD800 + (cp - 0x10000) div 0x400),
            of_nat (0xDC00 + (cp - 0x10000) mod 0x400)])"

definition fromCodePoints :: "nat list \<Rightarrow> jstring" where
  "fromCodePoints cps = concat (map fromCodePoint cps)"

definition utf8_encode_cp :: "nat \<Rightarrow> byte list" where
  "utf8_encode_cp cp =
     (if cp < 0x80 then [of_nat cp]
      else if cp < 0x800 then [of_nat (0xC0 + cp div 0x40), of_nat (0x80 + cp mod 0x40)]
      else if cp < 0x10000 then
        [of_nat (0xE0 + cp div 0x1000), of_nat (0x80 + cp div 0x40 mod 0x40),
         of_nat (0x80 + cp mod 0x40)]
      else
        [of_nat (0xF0 + cp div 0x40000), of_nat (0x80 + cp div 0x1000 mod 0x40),
         of_nat (0x80 + cp div 0x40 mod 0x40), of_nat (0x80 + cp mod 0x40)])"

definition utf8_encode :: "nat list \<Rightarrow> byte list" where
  "utf8_encode cps = concat (map utf8_encode_cp cps)"

text \<open>
  The UTF-8 decoder of the Encoding standard, with replacement of errors (``UTF-8 decode
  without BOM''). The state is the code point collected so far, the number of
  continuation bytes still needed and the bounds for the next byte; a byte that ends an
  incomplete sequence is read again in the initial state.
\<close>

fun utf8_decode_from :: "nat \<Rightarrow> nat \<Rightarrow> nat \<Rightarrow> nat \<Rightarrow> byte list \<Rightarrow> nat list" where
  "utf8_decode_from cp need lo hi [] = (if need \<noteq> 0 then [0xFFFD] else [])"
| "utf8_decode_from cp need lo hi (b # bs) =
     (let v = unat b in
      if need = 0 then
        (if v \<le> 0x7F then v # utf8_decode_from 0 0 0x80 0xBF bs
         else if 0xC2 \<le> v \<and> v \<le> 0xDF then utf8_decode_from (v mod 0x20) 1 0x80 0xBF bs
         else if 0xE0 \<le> v \<and> v \<le> 0xEF then
           utf8_decode_from (v mod 0x10) 2 (if v = 0xE0 then 0xA0 else 0x80)
             (if v = 0xED then 0x9F else 0xBF) bs
         else if 0xF0 \<le> v \<and> v \<le> 0xF4 then
           utf8_decode_from (v mod 0x8) 3 (if v = 0xF0 then 0x90 else 0x80)
             (if v = 0xF4 then 0x8F else 0xBF) bs
         else 0xFFFD # utf8_decode_from 0 0 0x80 0xBF bs)
      else if v < lo \<or> hi < v then 0xFFFD # utf8_decode_from 0 0 0x80 0xBF (b # bs)
      else if need = 1 then (cp * 0x40 + v mod 0x40) # utf8_decode_from 0 0 0x80 0xBF bs
      else utf8_decode_from (cp * 0x40 + v mod 0x40) (need - 1) 0x80 0xBF bs)"

definition utf8_decode :: "byte list \<Rightarrow> nat list" where
  "utf8_decode bs = utf8_decode_from 0 0 0x80 0xBF bs"

definition hexDigit :: "nat \<Rightarrow> 16 word" where
  "hexDigit n = (if n < 10 then 0x30 + of_nat n else 0x41 + of_nat (n - 10))"

definition percentEncodeByte :: "byte \<Rightarrow> jstring" where
  "percentEncodeByte b = [0x25, hexDigit (unat b div 16), hexDigit (unat b mod 16)]"

definition isAlnumByte :: "byte \<Rightarrow> bool" where
  "isAlnumByte b = ((0x30 \<le> b \<and> b \<le> 0x39) \<or> (0x41 \<le> b \<and> b \<le> 0x5A) \<or> (0x61 \<le> b \<and> b \<le> 0x7A))"

text \<open>
  The serializer of \<^verbatim>\<open>application/x-www-form-urlencoded\<close>, which
  \<^verbatim>\<open>URLSearchParams.prototype.toString\<close> runs: names and values are encoded in UTF-8;
  a space becomes \<open>+\<close>; letters, digits and \<^verbatim>\<open>* - . _\<close> stay; every other byte is
  percent-encoded.
\<close>

definition urlencodedByte :: "byte \<Rightarrow> jstring" where
  "urlencodedByte b =
     (if b = 0x20 then [0x2B]
      else if isAlnumByte b \<or> b = 0x2A \<or> b = 0x2D \<or> b = 0x2E \<or> b = 0x5F then [ucast b]
      else percentEncodeByte b)"

definition urlencoded :: "jstring \<Rightarrow> jstring" where
  "urlencoded s = concat (map urlencodedByte (utf8_encode (codePoints s)))"

definition URLSearchParams_toString :: "(jstring \<times> jstring) list \<Rightarrow> jstring" where
  "URLSearchParams_toString ps =
     join (S ''&'') (map (\<lambda>(name, value). urlencoded name @ S ''='' @ urlencoded value) ps)"

text \<open>
  The parser of \<^verbatim>\<open>application/x-www-form-urlencoded\<close>, which fills
  \<^verbatim>\<open>url.searchParams\<close>: split at \<open>&\<close>, drop empty pieces, split each piece at its first
  \<open>=\<close>, turn \<open>+\<close> into a space, percent-decode, decode as UTF-8.
\<close>

definition hexVal :: "byte \<Rightarrow> nat option" where
  "hexVal b =
     (if 0x30 \<le> b \<and> b \<le> 0x39 then Some (unat b - 0x30)
      else if 0x41 \<le> b \<and> b \<le> 0x46 then Some (unat b - 0x41 + 10)
      else if 0x61 \<le> b \<and> b \<le> 0x66 then Some (unat b - 0x61 + 10)
      else None)"

fun percent_decode :: "byte list \<Rightarrow> byte list" where
  "percent_decode [] = []"
| "percent_decode (b # bs) =
     (if b = 0x25 then
        (case bs of
           h # l # r \<Rightarrow>
             (case (hexVal h, hexVal l) of
                (Some x, Some y) \<Rightarrow> of_nat (16 * x + y) # percent_decode r
              | _ \<Rightarrow> b # percent_decode bs)
         | _ \<Rightarrow> b # percent_decode bs)
      else b # percent_decode bs)"

fun split_on :: "'a \<Rightarrow> 'a list \<Rightarrow> 'a list list" where
  "split_on d [] = [[]]"
| "split_on d (x # xs) =
     (if x = d then [] # split_on d xs
      else (case split_on d xs of [] \<Rightarrow> [[x]] | y # ys \<Rightarrow> (x # y) # ys))"

definition urldecoded :: "byte list \<Rightarrow> jstring" where
  "urldecoded bs =
     fromCodePoints (utf8_decode (percent_decode (map (\<lambda>b. if b = 0x2B then 0x20 else b) bs)))"

definition urlencoded_parse :: "byte list \<Rightarrow> (jstring \<times> jstring) list" where
  "urlencoded_parse input =
     map (\<lambda>bytes. (urldecoded (takeWhile (\<lambda>b. b \<noteq> 0x3D) bytes),
                   urldecoded (drop 1 (dropWhile (\<lambda>b. b \<noteq> 0x3D) bytes))))
       (filter (\<lambda>bytes. bytes \<noteq> []) (split_on 0x26 input))"

text \<open>
  \<^verbatim>\<open>encodeURIComponent\<close>: raises \<^verbatim>\<open>URIError\<close> on a surrogate outside a pair; keeps
  letters, digits and \<^verbatim>\<open>- _ . ! ~ * ' ( )\<close>; percent-encodes every other byte of the
  UTF-8 encoding.
\<close>

definition uriComponentByte :: "byte \<Rightarrow> jstring" where
  "uriComponentByte b =
     (if isAlnumByte b \<or> b = 0x2D \<or> b = 0x5F \<or> b = 0x2E \<or> b = 0x21 \<or> b = 0x7E \<or> b = 0x2A \<or>
         b = 0x27 \<or> b = 0x28 \<or> b = 0x29
      then [ucast b] else percentEncodeByte b)"

definition encodeURIComponent :: "jstring \<Rightarrow> jstring option" where
  "encodeURIComponent s =
     (if isWellFormed s then Some (concat (map uriComponentByte (utf8_encode (codePoints s))))
      else None)"

subsection \<open>Objects\<close>

text \<open>
  An object used as a dictionary is the list of its own properties in creation order.
  Assigning to an existing key keeps its place; \<^verbatim>\<open>Object.entries\<close> lists the keys
  that are array indices first, in ascending numeric order, then the other keys in
  creation order. A value of type \<^verbatim>\<open>string | undefined\<close> is a \<open>jstring option\<close>, and
  reading a key that is not there gives \<^verbatim>\<open>undefined\<close>.

  The objects that the code fills are made by the literal \<^verbatim>\<open>{}\<close> and inherit from
  \<^verbatim>\<open>Object.prototype\<close>. \<open>obj_put\<close> creates or overwrites an own property.
  \<open>obj_set\<close> is the assignment \<^verbatim>\<open>ob[k] = v\<close> that the code writes, with a string for
  \<open>v\<close>: for every key but one it creates or overwrites the own property; for the key
  \<^verbatim>\<open>__proto__\<close> it runs the setter inherited from \<^verbatim>\<open>Object.prototype\<close>, which
  ignores a value that is neither an object nor \<^verbatim>\<open>null\<close>, so the object is left as it
  was and never gets an own property of that name. (An input object can have such an own
  property all the same, for instance when it comes from \<^verbatim>\<open>JSON.parse\<close>.)

  \<open>obj_get\<close> is the read \<^verbatim>\<open>ob.k\<close> of a key that \<^verbatim>\<open>Object.prototype\<close> does not
  have; the code reads the keys it names (\<open>pa\<close>, \<open>pn\<close>, \<open>am\<close>, \<open>cu\<close> and the other
  parameter names), none of which is inherited. The own properties of an object \<open>ob\<close>
  are \<open>map_of ob\<close>.
\<close>

type_synonym 'v obj = "(jstring \<times> 'v) list"

fun obj_put :: "'v obj \<Rightarrow> jstring \<Rightarrow> 'v \<Rightarrow> 'v obj" where
  "obj_put [] k v = [(k, v)]"
| "obj_put ((k', v') # r) k v =
     (if k' = k then (k, v) # r else (k', v') # obj_put r k v)"

definition obj_set :: "(jstring option) obj \<Rightarrow> jstring \<Rightarrow> jstring option \<Rightarrow> (jstring option) obj"
where
  "obj_set ob k v = (if k = S ''__proto__'' then ob else obj_put ob k v)"

definition obj_get :: "(jstring option) obj \<Rightarrow> jstring \<Rightarrow> jstring option" where
  "obj_get ob k = (case map_of ob k of None \<Rightarrow> None | Some v \<Rightarrow> v)"

definition truthy :: "jstring option \<Rightarrow> bool" where
  "truthy v = (case v of None \<Rightarrow> False | Some s \<Rightarrow> s \<noteq> [])"

definition isDigit :: "16 word \<Rightarrow> bool" where
  "isDigit c = between 0x30 0x39 c"

definition digitsValue :: "jstring \<Rightarrow> nat" where
  "digitsValue k = foldl (\<lambda>n c. 10 * n + (unat c - 0x30)) 0 k"

definition isArrayIndex :: "jstring \<Rightarrow> bool" where
  "isArrayIndex k =
     (k \<noteq> [] \<and> list_all isDigit k \<and> (length k = 1 \<or> hd k \<noteq> 0x30) \<and>
      digitsValue k < 4294967295)"

definition Object_entries :: "'v obj \<Rightarrow> (jstring \<times> 'v) list" where
  "Object_entries ob =
     sort_key (\<lambda>kv. digitsValue (fst kv)) (filter (\<lambda>kv. isArrayIndex (fst kv)) ob) @
     filter (\<lambda>kv. \<not> isArrayIndex (fst kv)) ob"

section \<open>Parameter validation and URI building (params.ts)\<close>

type_synonym PartialUpiParams = "(jstring option) obj"

record UpiValidationResult =
  isValid :: bool
  errors :: "jstring list"
  normalizedParams :: PartialUpiParams

datatype UpiAction = Pay | Mandate

fun action_text :: "UpiAction \<Rightarrow> jstring" where
  "action_text Pay = S ''pay''"
| "action_text Mandate = S ''mandate''"

record ValidationRule =
  required :: "bool option"
  maxLength :: "nat option"
  pattern :: "regexp option"
  allowedValues :: "jstring list option"
  description :: jstring

definition rng :: "char \<Rightarrow> char \<Rightarrow> 16 word \<times> 16 word" where
  "rng a b = (unit_of a, unit_of b)"

definition one :: "char \<Rightarrow> 16 word \<times> 16 word" where
  "one a = (unit_of a, unit_of a)"

definition digit :: cclass where
  "digit = Ranges [rng CHR ''0'' CHR ''9'']"

text \<open>\<^verbatim>\<open>/^[a-zA-Z0-9._-]+@[a-zA-Z0-9.-]+$/\<close>\<close>

definition paPattern :: regexp where
  "paPattern =
     FromStart
       (Seq (Rep (Ranges [rng CHR ''a'' CHR ''z'', rng CHR ''A'' CHR ''Z'', rng CHR ''0'' CHR ''9'',
                          one CHR ''.'', one CHR ''_'', one CHR ''-'']) 1 None)
       (Seq (Lit (S ''@''))
       (Seq (Rep (Ranges [rng CHR ''a'' CHR ''z'', rng CHR ''A'' CHR ''Z'', rng CHR ''0'' CHR ''9'',
                          one CHR ''.'', one CHR ''-'']) 1 None)
            Eol)))"

text \<open>\<^verbatim>\<open>/^\d+(\.\d{1,2})?$/\<close>\<close>

definition amPattern :: regexp where
  "amPattern =
     FromStart
       (Seq (Rep digit 1 None)
       (Seq (Opt (Seq (Lit (S ''.'')) (Rep digit 1 (Some 2))))
            Eol))"

text \<open>\<^verbatim>\<open>/^[a-zA-Z0-9\-]+$/\<close>\<close>

definition trPattern :: regexp where
  "trPattern =
     FromStart
       (Seq (Rep (Ranges [rng CHR ''a'' CHR ''z'', rng CHR ''A'' CHR ''Z'', rng CHR ''0'' CHR ''9'',
                          one CHR ''-'']) 1 None)
            Eol)"

text \<open>\<^verbatim>\<open>/^https?:\/\/.+/\<close>\<close>

definition urlPattern :: regexp where
  "urlPattern =
     FromStart
       (Seq (Lit (S ''http''))
       (Seq (Rep (Ranges [one CHR ''s'']) 0 (Some 1))
       (Seq (Lit (S ''://''))
            (Rep Dot 1 None))))"

text \<open>\<^verbatim>\<open>/^\d{4}$/\<close>\<close>

definition mcPattern :: regexp where
  "mcPattern = FromStart (Seq (Rep digit 4 (Some 4)) Eol)"

definition VALIDATION_RULES :: "(jstring \<times> ValidationRule) list" where
  "VALIDATION_RULES =
    [(S ''pa'', \<lparr>required = Some True, maxLength = Some 255, pattern = Some paPattern,
        allowedValues = None, description = S ''Valid VPA format (user@psp)''\<rparr>),
     (S ''pn'', \<lparr>required = Some True, maxLength = Some 99, pattern = None,
        allowedValues = None, description = S ''Payee name''\<rparr>),
     (S ''am'', \<lparr>required = Some False, maxLength = Some 18, pattern = Some amPattern,
        allowedValues = None, description = S ''Amount in INR (up to 2 decimal places)''\<rparr>),
     (S ''cu'', \<lparr>required = Some False, maxLength = None, pattern = None,
        allowedValues = Some [S ''INR''], description = S ''Currency code (must be INR)''\<rparr>),
     (S ''tr'', \<lparr>required = Some False, maxLength = Some 35, pattern = Some trPattern,
        allowedValues = None,
        description = S ''Transaction reference (alphanumeric with hyphens)''\<rparr>),
     (S ''tn'', \<lparr>required = Some False, maxLength = Some 100, pattern = None,
        allowedValues = None, description = S ''Transaction note''\<rparr>),
     (S ''url'', \<lparr>required = Some False, maxLength = Some 200, pattern = Some urlPattern,
        allowedValues = None, description = S ''Valid HTTP/HTTPS URL''\<rparr>),
     (S ''mode'', \<lparr>required = Some False, maxLength = Some 20, pattern = None,
        allowedValues = None, description = S ''Transaction mode''\<rparr>),
     (S ''orgid'', \<lparr>required = Some False, maxLength = Some 20, pattern = None,
        allowedValues = None, description = S ''Organization ID''\<rparr>),
     (S ''sign'', \<lparr>required = Some False, maxLength = Some 500, pattern = None,
        allowedValues = None, description = S ''Digital signature''\<rparr>),
     (S ''mc'', \<lparr>required = Some False, maxLength = Some 4, pattern = Some mcPattern,
        allowedValues = None, description = S ''Merchant Category Code (4 digits)''\<rparr>),
     (S ''tid'', \<lparr>required = Some False, maxLength = Some 35, pattern = None,
        allowedValues = None, description = S ''Transaction ID''\<rparr>)]"

text \<open>The three checks of the loop body, each the condition of its \<^verbatim>\<open>if\<close>.\<close>

definition exceedsMaxLength :: "ValidationRule \<Rightarrow> jstring \<Rightarrow> bool" where
  "exceedsMaxLength rule stringValue =
     (case maxLength rule of None \<Rightarrow> False | Some n \<Rightarrow> n \<noteq> 0 \<and> length stringValue > n)"

definition failsPattern :: "ValidationRule \<Rightarrow> jstring \<Rightarrow> bool" where
  "failsPattern rule stringValue =
     (case pattern rule of None \<Rightarrow> False | Some re \<Rightarrow> \<not> regexp_test re stringValue)"

definition notAllowed :: "ValidationRule \<Rightarrow> jstring \<Rightarrow> bool" where
  "notAllowed rule stringValue =
     (case allowedValues rule of None \<Rightarrow> False | Some vs \<Rightarrow> stringValue \<notin> set vs)"

definition lengthMessage :: "jstring \<Rightarrow> ValidationRule \<Rightarrow> jstring" where
  "lengthMessage key rule =
     key @ S '': exceeds maximum length of '' @ decimal (the (maxLength rule)) @ S '' characters''"

definition patternMessage :: "jstring \<Rightarrow> ValidationRule \<Rightarrow> jstring" where
  "patternMessage key rule = key @ S '': invalid format. '' @ description rule"

definition allowedMessage :: "jstring \<Rightarrow> ValidationRule \<Rightarrow> jstring" where
  "allowedMessage key rule =
     key @ S '': must be one of '' @ join (S '', '') (the (allowedValues rule))"

text \<open>
  One turn of the loop over \<^verbatim>\<open>Object.entries(params)\<close>, on the pair of \<^verbatim>\<open>errors\<close>
  and \<^verbatim>\<open>normalizedParams\<close>. The rule is read with \<^verbatim>\<open>VALIDATION_RULES[key]\<close>: for
  a key that is a name of \<^verbatim>\<open>Object.prototype\<close> (\<^verbatim>\<open>constructor\<close>, \<^verbatim>\<open>toString\<close>,
  \<^verbatim>\<open>__proto__\<close> and the like) the read gives an inherited function or object, which has
  none of \<^verbatim>\<open>maxLength\<close>, \<^verbatim>\<open>pattern\<close> and \<^verbatim>\<open>allowedValues\<close>; no check is made and
  the same assignment follows as for a key without rule, which is the branch the model
  takes for such a key.
\<close>

definition validate_entry ::
  "jstring list \<times> PartialUpiParams \<Rightarrow> jstring \<times> jstring option \<Rightarrow> jstring list \<times> PartialUpiParams"
where
  "validate_entry st entry =
     (case entry of (key, value) \<Rightarrow>
      case st of (errs, norm) \<Rightarrow>
      (case value of
         None \<Rightarrow> st
       | Some v \<Rightarrow>
           if v = [] then st
           else
             let stringValue = trim v in
             if stringValue = [] then st
             else
               (case map_of VALIDATION_RULES key of
                  Some rule \<Rightarrow>
                    if exceedsMaxLength rule stringValue
                    then (errs @ [lengthMessage key rule], norm)
                    else if failsPattern rule stringValue
                    then (errs @ [patternMessage key rule], norm)
                    else if notAllowed rule stringValue
                    then (errs @ [allowedMessage key rule], norm)
                    else (errs, obj_set norm key (Some stringValue))
                | None \<Rightarrow> (errs, obj_set norm key (Some stringValue)))))"

text \<open>\<^verbatim>\<open>!v || typeof v !== 'string' || v.trim() === ''\<close>\<close>

definition isMissing :: "jstring option \<Rightarrow> bool" where
  "isMissing v = (case v of None \<Rightarrow> True | Some s \<Rightarrow> s = [] \<or> trim s = [])"

definition validateUpiParams :: "PartialUpiParams \<Rightarrow> UpiValidationResult" where
  "validateUpiParams params =
     (let errors0 =
            (if isMissing (obj_get params (S ''pa'')) then [S ''Payee Address (pa) is required'']
             else []) @
            (if isMissing (obj_get params (S ''pn'')) then [S ''Payee Name (pn) is required'']
             else []);
          (errs, norm) = foldl validate_entry (errors0, []) (Object_entries params);
          norm' =
            (if truthy (obj_get norm (S ''am'')) \<and> \<not> truthy (obj_get norm (S ''cu''))
             then obj_set norm (S ''cu'') (Some (S ''INR''))
             else norm)
      in \<lparr>isValid = (errs = []), errors = errs, normalizedParams = norm'\<rparr>)"

text \<open>
  What the code raises. \<open>Error m\<close> is \<^verbatim>\<open>new Error(m)\<close>. \<open>TypeError\<close> is what the URL
  constructor raises and \<open>URIError\<close> what \<^verbatim>\<open>encodeURIComponent\<close> raises; their
  messages are the platform's. \<open>Rejected\<close> is raised only for a URL of one of the
  schemes \<open>ftp\<close>, \<open>http\<close>, \<open>https\<close>, \<open>ws\<close>, \<open>wss\<close> and \<open>file\<close> whose host
  needs the Unicode IDNA mapping, which the model does not follow (see \<open>new_URL\<close>): on
  such an input \<open>parseUpiUri\<close> raises the \<^verbatim>\<open>TypeError\<close> of the constructor or its own
  error for a scheme that is not \<open>upi\<close>. \<open>Wrapped e\<close> is the error of
  \<open>extractQueryFromUri\<close>, whose message is \<^verbatim>\<open>Invalid UPI URI: \<close> followed by the
  message of \<open>e\<close>.
\<close>

datatype js_error = Error jstring | TypeError | URIError | Rejected | Wrapped js_error

definition orderedKeys :: "jstring list" where
  "orderedKeys =
     [S ''pa'', S ''pn'', S ''am'', S ''cu'', S ''tr'', S ''tn'', S ''url'', S ''mode'',
      S ''orgid'', S ''mc'', S ''tid'', S ''sign'']"

text \<open>
  The two loops of \<open>buildUpiUri\<close> that fill the \<^verbatim>\<open>URLSearchParams\<close>: a list of
  name and value pairs, \<^verbatim>\<open>append\<close> adding at the end.
\<close>

definition orderedPairs :: "PartialUpiParams \<Rightarrow> (jstring \<times> jstring) list" where
  "orderedPairs norm =
     concat (map (\<lambda>key. case obj_get norm key of
                           None \<Rightarrow> []
                         | Some value \<Rightarrow> if value \<noteq> [] then [(key, value)] else [])
                 orderedKeys)"

definition additionalPairs :: "PartialUpiParams \<Rightarrow> (jstring \<times> jstring) list" where
  "additionalPairs norm =
     concat (map (\<lambda>(key, value). case value of
                                    None \<Rightarrow> []
                                  | Some v \<Rightarrow>
                                      if key \<notin> set orderedKeys \<and> v \<noteq> [] then [(key, v)] else [])
                 (Object_entries norm))"

definition buildUpiUri :: "PartialUpiParams \<Rightarrow> UpiAction \<Rightarrow> js_error + jstring" where
  "buildUpiUri params action =
     (let validation = validateUpiParams params in
      if \<not> isValid validation
      then Inl (Error (S ''Invalid UPI parameters: '' @ join (S '', '') (errors validation)))
      else
        let queryParams = orderedPairs (normalizedParams validation) @
                          additionalPairs (normalizedParams validation);
            queryString = URLSearchParams_toString queryParams
        in Inr (S ''upi://'' @ action_text action @
                (if queryString \<noteq> [] then S ''?'' @ queryString else [])))"

subsection \<open>The URL constructor\<close>

text \<open>
  \<^verbatim>\<open>new URL(input)\<close> runs the parser of the URL standard without a base URL. The
  model follows it for what the code reads of the result: whether the constructor
  raises, and \<^verbatim>\<open>protocol\<close>, \<^verbatim>\<open>hostname\<close> and \<^verbatim>\<open>searchParams\<close>.

  The input is taken as a scalar value string; C0 controls and spaces are stripped from
  both ends and every tab and newline is removed; the scheme is lower-cased; what follows
  the first \<open>#\<close> is the fragment; what follows the first \<open>?\<close> before it is the query.
  What lies between the scheme's colon and the query decides the host, by the kind of
  scheme.

  \<^item> A scheme that is not special (every scheme but \<open>ftp\<close>, \<open>file\<close>, \<open>http\<close>,
    \<open>https\<close>, \<open>ws\<close>, \<open>wss\<close>; so \<open>upi\<close> is one): after \<open>//\<close> comes the authority,
    up to the next \<open>/\<close>: credentials up to the last \<open>@\<close>, then the host, then an
    optional \<open>:\<close> and port. The host is opaque: it is not lower-cased, it must not
    contain a forbidden host code point, and it is percent-encoded with the C0 control
    set. Without \<open>//\<close> the URL has no host and \<^verbatim>\<open>hostname\<close> is empty.
  \<^item> A special scheme other than \<open>file\<close>: all slashes and backslashes after the colon
    are skipped, the authority runs up to the next slash or backslash, and its host must
    not be empty. The host is a domain: it is percent-decoded, mapped to ASCII, checked
    for forbidden domain code points, and read as an IPv4 address when its last label is
    a number.
  \<^item> The scheme \<open>file\<close>: a host is read only after two slashes or backslashes; a
    Windows drive letter or nothing in its place gives the empty host, and so does
    \<open>localhost\<close>.
  \<^item> In all three cases a host in square brackets is an IPv6 address.

  The one step that the model does not follow is the mapping of a domain to ASCII by
  the Unicode IDNA rules. For a domain that is ASCII and has no label starting with
  \<open>xn--\<close> the standard says that this mapping is ASCII lower-casing, and the model
  does that. On any other domain the model stops with \<open>HostRejected\<close>, and
  \<open>new_URL\<close> with \<open>UrlRejected\<close>. This happens for special schemes only: for those
  inputs the constructor raises \<^verbatim>\<open>TypeError\<close> or returns a URL whose \<^verbatim>\<open>protocol\<close> is
  not \<^verbatim>\<open>upi:\<close>.
\<close>

record URL =
  protocol :: jstring
  hostname :: jstring
  searchParams :: "(jstring \<times> jstring) list"

datatype url_outcome = Url URL | UrlFailure | UrlRejected

datatype host_outcome = Host jstring | HostFailure | HostRejected

definition isAsciiAlpha :: "nat \<Rightarrow> bool" where
  "isAsciiAlpha c = ((0x41 \<le> c \<and> c \<le> 0x5A) \<or> (0x61 \<le> c \<and> c \<le> 0x7A))"

definition isAsciiDigit :: "nat \<Rightarrow> bool" where
  "isAsciiDigit c = (0x30 \<le> c \<and> c \<le> 0x39)"

definition isAsciiHexDigit :: "nat \<Rightarrow> bool" where
  "isAsciiHexDigit c = (isAsciiDigit c \<or> (0x41 \<le> c \<and> c \<le> 0x46) \<or> (0x61 \<le> c \<and> c \<le> 0x66))"

definition hexValue :: "nat \<Rightarrow> nat" where
  "hexValue c =
     (if isAsciiDigit c then c - 0x30
      else if 0x41 \<le> c \<and> c \<le> 0x46 then c - 0x41 + 10
      else c - 0x61 + 10)"

definition isSchemeChar :: "nat \<Rightarrow> bool" where
  "isSchemeChar c = (isAsciiAlpha c \<or> isAsciiDigit c \<or> c = 0x2B \<or> c = 0x2D \<or> c = 0x2E)"

definition asciiLower :: "nat \<Rightarrow> nat" where
  "asciiLower c = (if 0x41 \<le> c \<and> c \<le> 0x5A then c + 0x20 else c)"

definition isC0OrSpace :: "nat \<Rightarrow> bool" where
  "isC0OrSpace c = (c \<le> 0x20)"

definition isTabOrNewline :: "nat \<Rightarrow> bool" where
  "isTabOrNewline c = (c = 0x9 \<or> c = 0xA \<or> c = 0xD)"

definition isSlash :: "nat \<Rightarrow> bool" where
  "isSlash c = (c = 0x2F \<or> c = 0x5C)"

definition c0ControlSet :: "nat \<Rightarrow> bool" where
  "c0ControlSet c = (c \<le> 0x1F \<or> 0x7E < c)"

definition querySet :: "nat \<Rightarrow> bool" where
  "querySet c = (c0ControlSet c \<or> c = 0x20 \<or> c = 0x22 \<or> c = 0x23 \<or> c = 0x3C \<or> c = 0x3E)"

definition specialQuerySet :: "nat \<Rightarrow> bool" where
  "specialQuerySet c = (querySet c \<or> c = 0x27)"

definition forbiddenHostCodePoint :: "nat \<Rightarrow> bool" where
  "forbiddenHostCodePoint c =
     (c = 0x0 \<or> c = 0x9 \<or> c = 0xA \<or> c = 0xD \<or> c = 0x20 \<or> c = 0x23 \<or> c = 0x2F \<or> c = 0x3A \<or>
      c = 0x3C \<or> c = 0x3E \<or> c = 0x3F \<or> c = 0x40 \<or> c = 0x5B \<or> c = 0x5C \<or> c = 0x5D \<or>
      c = 0x5E \<or> c = 0x7C)"

definition forbiddenDomainCodePoint :: "nat \<Rightarrow> bool" where
  "forbiddenDomainCodePoint c =
     (forbiddenHostCodePoint c \<or> c \<le> 0x1F \<or> c = 0x25 \<or> c = 0x7F)"

definition specialSchemes :: "jstring list" where
  "specialSchemes = [S ''ftp'', S ''file'', S ''http'', S ''https'', S ''ws'', S ''wss'']"

definition utf8PercentEncode :: "(nat \<Rightarrow> bool) \<Rightarrow> nat list \<Rightarrow> jstring" where
  "utf8PercentEncode inSet cps =
     concat (map (\<lambda>c. if inSet c then concat (map percentEncodeByte (utf8_encode_cp c))
                       else [of_nat c]) cps)"

definition parse_scheme :: "nat list \<Rightarrow> (jstring \<times> nat list) option" where
  "parse_scheme inp =
     (case inp of
        [] \<Rightarrow> None
      | c # _ \<Rightarrow>
          if \<not> isAsciiAlpha c then None
          else (case dropWhile isSchemeChar inp of
                  [] \<Rightarrow> None
                | d # rest \<Rightarrow>
                    if d = 0x3A
                    then Some (map (\<lambda>x. of_nat (asciiLower x)) (takeWhile isSchemeChar inp), rest)
                    else None))"

text \<open>
  The IPv6 parser. \<open>ipv6_pieces\<close> is its main loop, one code point at a time: the
  pieces read so far (their number is the parser's piece index), the index at which
  \<open>::\<close> was seen if it was, and, inside a piece, its value, the number of its digits
  and the input at its start. A piece has at most four hexadecimal digits and is followed
  by the end, by a colon that is not the last code point, or by a dot; at a dot the text
  from the start of the piece is read as the four decimal numbers of an IPv4 address,
  none above 255 and none with a leading zero, which fill two pieces and end the input.
  At the end the pieces after \<open>::\<close> are moved to the end of the eight.
\<close>

definition digitsNat :: "nat list \<Rightarrow> nat" where
  "digitsNat ds = foldl (\<lambda>n c. 10 * n + (c - 0x30)) 0 ds"

definition ipv4_in_ipv6 :: "nat list \<Rightarrow> nat list option" where
  "ipv4_in_ipv6 inp =
     (let parts = split_on 0x2E inp in
      if length parts = 4 \<and>
         list_all (\<lambda>p. p \<noteq> [] \<and> list_all isAsciiDigit p \<and> (length p = 1 \<or> hd p \<noteq> 0x30) \<and>
                       digitsNat p \<le> 255) parts
      then Some [digitsNat (parts ! 0) * 0x100 + digitsNat (parts ! 1),
                 digitsNat (parts ! 2) * 0x100 + digitsNat (parts ! 3)]
      else None)"

fun ipv6_pieces ::
  "nat list \<Rightarrow> nat option \<Rightarrow> (nat \<times> nat \<times> nat list) option \<Rightarrow> nat list \<Rightarrow>
   (nat list \<times> nat option) option"
where
  "ipv6_pieces pieces compress None [] = Some (pieces, compress)"
| "ipv6_pieces pieces compress None (c # cs) =
     (if length pieces = 8 then None
      else if c = 0x3A then
        (if compress \<noteq> None then None
         else ipv6_pieces (pieces @ [0]) (Some (length pieces + 1)) None cs)
      else if isAsciiHexDigit c
      then ipv6_pieces pieces compress (Some (hexValue c, 1, c # cs)) cs
      else None)"
| "ipv6_pieces pieces compress (Some (v, len, start)) [] = Some (pieces @ [v], compress)"
| "ipv6_pieces pieces compress (Some (v, len, start)) (c # cs) =
     (if len < 4 \<and> isAsciiHexDigit c
      then ipv6_pieces pieces compress (Some (v * 0x10 + hexValue c, len + 1, start)) cs
      else if c = 0x2E then
        (if length pieces > 6 then None
         else (case ipv4_in_ipv6 start of
                 None \<Rightarrow> None
               | Some two \<Rightarrow> Some (pieces @ two, compress)))
      else if c = 0x3A then
        (if cs = [] then None else ipv6_pieces (pieces @ [v]) compress None cs)
      else None)"

definition ipv6_parse :: "nat list \<Rightarrow> nat list option" where
  "ipv6_parse inp =
     (case (if take 1 inp = [0x3A]
            then (if take 2 inp = [0x3A, 0x3A] then ipv6_pieces [0] (Some 1) None (drop 2 inp)
                  else None)
            else ipv6_pieces [] None None inp) of
        None \<Rightarrow> None
      | Some (pieces, Some k) \<Rightarrow>
          Some (take k pieces @ replicate (8 - length pieces) 0 @ drop k pieces)
      | Some (pieces, None) \<Rightarrow> if length pieces = 8 then Some pieces else None)"

text \<open>
  The IPv6 serializer: the first longest run of two or more zero pieces is written as
  \<open>::\<close>, every other piece in lower-case hexadecimal without leading zeros.
\<close>

function lowerHex :: "nat \<Rightarrow> jstring" where
  "lowerHex n =
     (if n < 16 then [if n < 10 then 0x30 + of_nat n else 0x61 + of_nat (n - 10)]
      else lowerHex (n div 16) @ lowerHex (n mod 16))"
  by pat_completeness auto
termination
  by (relation "measure (\<lambda>n. n)") auto

declare lowerHex.simps [simp del]

definition zeroRun :: "nat list \<Rightarrow> nat" where
  "zeroRun ps = length (takeWhile (\<lambda>p. p = 0) ps)"

definition ipv6_compress :: "nat list \<Rightarrow> nat option" where
  "ipv6_compress address =
     (let runs = map (\<lambda>i. zeroRun (drop i address)) [0 ..< length address];
          longest = foldr max runs 0
      in if longest > 1 then find (\<lambda>i. zeroRun (drop i address) = longest) [0 ..< length address]
         else None)"

fun ipv6_text :: "nat option \<Rightarrow> bool \<Rightarrow> nat \<Rightarrow> nat list \<Rightarrow> jstring" where
  "ipv6_text compress ignore0 i [] = []"
| "ipv6_text compress ignore0 i (p # ps) =
     (if ignore0 \<and> p = 0 then ipv6_text compress True (i + 1) ps
      else if compress = Some i
      then (if i = 0 then S ''::'' else S '':'') @ ipv6_text compress True (i + 1) ps
      else lowerHex p @ (if ps \<noteq> [] then S '':'' else []) @
           ipv6_text compress False (i + 1) ps)"

definition ipv6_serialize :: "nat list \<Rightarrow> jstring" where
  "ipv6_serialize address = ipv6_text (ipv6_compress address) False 0 address"

text \<open>
  IPv4 in a domain: a number is decimal, octal after \<open>0\<close> or hexadecimal after \<open>0x\<close>;
  a domain whose last label is a number must be an IPv4 address of at most four numbers,
  all but the last at most 255 and the last filling the bytes that remain.
\<close>

definition isRadixDigit :: "nat \<Rightarrow> nat \<Rightarrow> bool" where
  "isRadixDigit r c =
     (if r = 16 then isAsciiHexDigit c
      else if r = 8 then 0x30 \<le> c \<and> c \<le> 0x37
      else isAsciiDigit c)"

definition radixValue :: "nat \<Rightarrow> nat list \<Rightarrow> nat" where
  "radixValue r ds = foldl (\<lambda>n c. r * n + hexValue c) 0 ds"

definition ipv4_number :: "nat list \<Rightarrow> nat option" where
  "ipv4_number inp =
     (if inp = [] then None
      else
        (case (if 2 \<le> length inp \<and> (take 2 inp = [0x30, 0x58] \<or> take 2 inp = [0x30, 0x78])
               then (16, drop 2 inp)
               else if 2 \<le> length inp \<and> take 1 inp = [0x30] then (8, drop 1 inp)
               else (10, inp)) of
           (r, ds) \<Rightarrow>
             if ds = [] then Some 0
             else if list_all (isRadixDigit r) ds then Some (radixValue r ds)
             else None))"

definition dotParts :: "nat list \<Rightarrow> nat list list" where
  "dotParts inp =
     (let parts = split_on 0x2E inp in
      if last parts = [] \<and> 1 < length parts then butlast parts else parts)"

definition endsInNumber :: "nat list \<Rightarrow> bool" where
  "endsInNumber inp =
     (if split_on 0x2E inp = [[]] then False
      else let l = last (dotParts inp) in
           (l \<noteq> [] \<and> list_all isAsciiDigit l) \<or> ipv4_number l \<noteq> None)"

definition ipv4_parse :: "nat list \<Rightarrow> nat option" where
  "ipv4_parse inp =
     (let parts = dotParts inp in
      if 4 < length parts then None
      else if list_ex (\<lambda>part. ipv4_number part = None) parts then None
      else
        let numbers = map (\<lambda>part. the (ipv4_number part)) parts in
        if list_ex (\<lambda>n. 255 < n) (butlast numbers) then None
        else if 256 ^ (5 - length numbers) \<le> last numbers then None
        else Some (last numbers +
                   sum_list (map (\<lambda>(i, n). n * 256 ^ (3 - i)) (enumerate 0 (butlast numbers)))))"

definition ipv4_serialize :: "nat \<Rightarrow> jstring" where
  "ipv4_serialize a =
     join (S ''.'') [decimal (a div 16777216), decimal (a div 65536 mod 256),
                     decimal (a div 256 mod 256), decimal (a mod 256)]"

text \<open>
  The host parser for a domain (the host of a special scheme, not in brackets). Where
  the domain is ASCII without an \<open>xn--\<close> label, its ASCII form is its lower-casing.
\<close>

definition isPunycodeLabel :: "nat list \<Rightarrow> bool" where
  "isPunycodeLabel l = (map asciiLower (take 4 l) = [0x78, 0x6E, 0x2D, 0x2D])"

definition parse_domain :: "nat list \<Rightarrow> host_outcome" where
  "parse_domain buf =
     (let domain = utf8_decode (percent_decode (utf8_encode buf)) in
      if list_ex (\<lambda>c. 0x80 \<le> c) domain \<or> list_ex isPunycodeLabel (split_on 0x2E domain)
      then HostRejected
      else
        let asciiDomain = map asciiLower domain in
        if asciiDomain = [] then HostFailure
        else if list_ex forbiddenDomainCodePoint asciiDomain then HostFailure
        else if endsInNumber asciiDomain
        then (case ipv4_parse asciiDomain of
                None \<Rightarrow> HostFailure
              | Some a \<Rightarrow> Host (ipv4_serialize a))
        else Host (map of_nat asciiDomain))"

text \<open>The host parser; \<open>isOpaque\<close> is true for a scheme that is not special.\<close>

definition parse_host :: "bool \<Rightarrow> nat list \<Rightarrow> host_outcome" where
  "parse_host isOpaque buf =
     (if take 1 buf = [0x5B] then
        (if last buf \<noteq> 0x5D then HostFailure
         else (case ipv6_parse (butlast (tl buf)) of
                 None \<Rightarrow> HostFailure
               | Some address \<Rightarrow> Host (S ''['' @ ipv6_serialize address @ S '']'')))
      else if isOpaque then
        (if list_ex forbiddenHostCodePoint buf then HostFailure
         else Host (utf8PercentEncode c0ControlSet buf))
      else parse_domain buf)"

text \<open>The host state: the host ends at the first \<open>:\<close> outside square brackets.\<close>

fun scan_host :: "bool \<Rightarrow> nat list \<Rightarrow> nat list \<Rightarrow> nat list \<times> nat list option" where
  "scan_host inside buf [] = (buf, None)"
| "scan_host inside buf (c # cs) =
     (if c = 0x3A \<and> \<not> inside then (buf, Some cs)
      else scan_host (if c = 0x5B then True else if c = 0x5D then False else inside)
             (buf @ [c]) cs)"

definition port_ok :: "nat list \<Rightarrow> bool" where
  "port_ok p = (list_all isAsciiDigit p \<and> digitsNat p \<le> 65535)"

text \<open>
  The authority, host and port states on the text of the authority: what precedes the
  last \<open>@\<close> is credentials, and an \<open>@\<close> with nothing after it is a failure; a colon
  with no host before it is a failure; so is an empty host in a special scheme.
\<close>

definition parse_authority :: "bool \<Rightarrow> nat list \<Rightarrow> host_outcome" where
  "parse_authority special auth =
     (let buffer = rev (takeWhile (\<lambda>c. c \<noteq> 0x40) (rev auth)) in
      if 0x40 \<in> set auth \<and> buffer = [] then HostFailure
      else (case scan_host False [] buffer of
              (h, None) \<Rightarrow>
                if special \<and> h = [] then HostFailure else parse_host (\<not> special) h
            | (h, Some port) \<Rightarrow>
                if h = [] then HostFailure
                else (case parse_host (\<not> special) h of
                        Host x \<Rightarrow> if port_ok port then Host x else HostFailure
                      | other \<Rightarrow> other)))"

definition isWindowsDriveLetter :: "nat list \<Rightarrow> bool" where
  "isWindowsDriveLetter buf =
     (length buf = 2 \<and> isAsciiAlpha (buf ! 0) \<and> (buf ! 1 = 0x3A \<or> buf ! 1 = 0x7C))"

text \<open>
  The host of the URL, from its scheme and the text between the scheme's colon and the
  query or fragment.
\<close>

definition url_host :: "jstring \<Rightarrow> nat list \<Rightarrow> host_outcome" where
  "url_host scheme hier =
     (if scheme = S ''file'' then
        (if 2 \<le> length hier \<and> isSlash (hier ! 0) \<and> isSlash (hier ! 1) then
           (let buffer = takeWhile (\<lambda>c. \<not> isSlash c) (drop 2 hier) in
            if isWindowsDriveLetter buffer \<or> buffer = [] then Host []
            else (case parse_host False buffer of
                    Host h \<Rightarrow> Host (if h = S ''localhost'' then [] else h)
                  | other \<Rightarrow> other))
         else Host [])
      else if scheme \<in> set specialSchemes then
        parse_authority True (takeWhile (\<lambda>c. \<not> isSlash c) (dropWhile isSlash hier))
      else if take 2 hier = [0x2F, 0x2F] then
        parse_authority False (takeWhile (\<lambda>c. c \<noteq> 0x2F) (drop 2 hier))
      else Host [])"

text \<open>
  The input as the parser reads it: the code points of the scalar value string, without
  the C0 controls and spaces at both ends and without any tab or newline.
\<close>

definition url_input :: "jstring \<Rightarrow> nat list" where
  "url_input input =
     (let stripped = rev (dropWhile isC0OrSpace (rev (dropWhile isC0OrSpace (codePoints input))))
      in filter (\<lambda>c. \<not> isTabOrNewline c) stripped)"

definition new_URL :: "jstring \<Rightarrow> url_outcome" where
  "new_URL input =
     (case parse_scheme (url_input input) of
        None \<Rightarrow> UrlFailure
      | Some (scheme, rest) \<Rightarrow>
          let beforeFragment = takeWhile (\<lambda>c. c \<noteq> 0x23) rest;
              hier = takeWhile (\<lambda>c. c \<noteq> 0x3F) beforeFragment;
              query = utf8PercentEncode
                        (if scheme \<in> set specialSchemes then specialQuerySet else querySet)
                        (drop 1 (dropWhile (\<lambda>c. c \<noteq> 0x3F) beforeFragment));
              entries = urlencoded_parse (utf8_encode (codePoints query))
          in (case url_host scheme hier of
                Host h \<Rightarrow>
                  Url \<lparr>protocol = scheme @ S '':'', hostname = h, searchParams = entries\<rparr>
              | HostFailure \<Rightarrow> UrlFailure
              | HostRejected \<Rightarrow> UrlRejected))"

subsection \<open>parseUpiUri\<close>

text \<open>
  The loop that copies \<^verbatim>\<open>url.searchParams.entries()\<close> into a fresh object, by
  assignment: a later entry of the same name overwrites the earlier one, and an entry
  named \<^verbatim>\<open>__proto__\<close> leaves no property.
\<close>

definition collectParams :: "(jstring \<times> jstring) list \<Rightarrow> PartialUpiParams" where
  "collectParams entries = foldl (\<lambda>ps (key, value). obj_set ps key (Some value)) [] entries"

text \<open>
  The body of \<open>parseUpiUri\<close> is a \<^verbatim>\<open>try\<close> block whose \<^verbatim>\<open>catch\<close> clause throws again
  whatever is an \<^verbatim>\<open>Error\<close>. Everything raised in the block is one: the \<^verbatim>\<open>TypeError\<close>
  of the constructor and the three errors that the block makes itself. So each of them
  leaves the function as it was raised, and the last line of the clause, with the message
  \<^verbatim>\<open>Failed to parse UPI URI\<close>, is never reached.
\<close>

definition parseUpiUri :: "jstring \<Rightarrow> js_error + (UpiAction \<times> PartialUpiParams)" where
  "parseUpiUri upiUri =
     (case new_URL upiUri of
        UrlFailure \<Rightarrow> Inl TypeError
      | UrlRejected \<Rightarrow> Inl Rejected
      | Url url \<Rightarrow>
          if protocol url \<noteq> S ''upi:''
          then Inl (Error (S ''Invalid UPI URI: must start with upi://''))
          else if hostname url \<noteq> S ''pay'' \<and> hostname url \<noteq> S ''mandate''
          then Inl (Error (S ''Invalid UPI action: must be '' @ [0x22] @ S ''pay'' @ [0x22] @
                          S '' or '' @ [0x22] @ S ''mandate'' @ [0x22]))
          else
            let action = (if hostname url = S ''pay'' then Pay else Mandate);
                params = collectParams (searchParams url);
                validation = validateUpiParams params
            in if \<not> isValid validation
               then Inl (Error (S ''Invalid UPI parameters: '' @
                                join (S '', '') (errors validation)))
               else Inr (action, normalizedParams validation))"

section \<open>Platform and capability detection (linkers.ts)\<close>

datatype Platform = Android | Ios

text \<open>
  The functions read the global \<^verbatim>\<open>navigator\<close>. The model takes what they read as an
  argument: \<open>None\<close> when \<^verbatim>\<open>typeof navigator === 'undefined'\<close>, else
  \<^verbatim>\<open>navigator.userAgent\<close>.
\<close>

definition iosPattern :: regexp where
  "iosPattern = Anywhere (Alt (Lit (S ''iphone'')) (Alt (Lit (S ''ipad'')) (Lit (S ''ipod''))))"

definition androidPattern :: regexp where
  "androidPattern = Anywhere (Lit (S ''android''))"

definition chromePattern :: regexp where
  "chromePattern = Anywhere (Alt (Lit (S ''chrome'')) (Lit (S ''chromium'')))"

definition criosPattern :: regexp where
  "criosPattern = Anywhere (Lit (S ''crios''))"

definition detectPlatform :: "jstring option \<Rightarrow> Platform" where
  "detectPlatform navigator =
     (case navigator of
        None \<Rightarrow> Android
      | Some ua \<Rightarrow>
          (let userAgent = toLowerCase ua
           in if regexp_test iosPattern userAgent then Ios else Android))"

definition supportsIntentUrls :: "jstring option \<Rightarrow> bool" where
  "supportsIntentUrls navigator =
     (case navigator of
        None \<Rightarrow> False
      | Some ua \<Rightarrow>
          (let userAgent = toLowerCase ua
           in regexp_test androidPattern userAgent \<and>
              (regexp_test chromePattern userAgent \<or> regexp_test criosPattern userAgent)))"

section \<open>The app registry (registry.ts)\<close>

text \<open>
  The registry's data, \<^verbatim>\<open>apps.json\<close>, is not among the sources: every function takes
  the list of apps it reads as its first argument. Of an app's fields the record keeps
  those that the modelled functions read.
\<close>

datatype UpiAppId = Generic | Gpay | Phonepe | Paytm | Bhim | Amazonpay

fun appId_text :: "UpiAppId \<Rightarrow> jstring" where
  "appId_text Generic = S ''generic''"
| "appId_text Gpay = S ''gpay''"
| "appId_text Phonepe = S ''phonepe''"
| "appId_text Paytm = S ''paytm''"
| "appId_text Bhim = S ''bhim''"
| "appId_text Amazonpay = S ''amazonpay''"

datatype VerificationStatus = Verified | CommunityObserved

record Templates =
  pay :: jstring
  mandate :: jstring

record Stores =
  play :: "jstring option"
  app :: "jstring option"

record UpiApp =
  app_id :: UpiAppId
  label :: jstring
  androidPackage :: "jstring option"
  android :: Templates
  ios :: Templates
  stores :: "Stores option"
  status :: VerificationStatus

definition getAllApps :: "UpiApp list \<Rightarrow> UpiApp list" where
  "getAllApps appsData = appsData"

definition getApp :: "UpiApp list \<Rightarrow> UpiAppId \<Rightarrow> UpiApp option" where
  "getApp appsData appId = find (\<lambda>a. app_id a = appId) (getAllApps appsData)"

definition getAppLinkTemplate ::
  "UpiApp list \<Rightarrow> UpiAppId \<Rightarrow> Platform \<Rightarrow> UpiAction \<Rightarrow> jstring option" where
  "getAppLinkTemplate appsData appId platform action =
     (case getApp appsData appId of
        None \<Rightarrow> None
      | Some a \<Rightarrow>
          (let templates = (case platform of Android \<Rightarrow> android a | Ios \<Rightarrow> ios a)
           in Some (case action of Pay \<Rightarrow> pay templates | Mandate \<Rightarrow> mandate templates)))"

definition getStoreUrl :: "UpiApp list \<Rightarrow> UpiAppId \<Rightarrow> Platform \<Rightarrow> jstring option" where
  "getStoreUrl appsData appId platform =
     (case getApp appsData appId of
        None \<Rightarrow> None
      | Some a \<Rightarrow>
          (case stores a of
             None \<Rightarrow> None
           | Some st \<Rightarrow> (case platform of Android \<Rightarrow> play st | Ios \<Rightarrow> app st)))"

section \<open>Link generation (linkers.ts)\<close>

record AppLinkOptions =
  appId :: UpiAppId
  upiUri :: "jstring option"
  upiParams :: "PartialUpiParams option"
  platform :: Platform
  action :: "UpiAction option"
  fallbackUrl :: "jstring option"
  includeFallback :: "bool option"

record AppInfo =
  info_id :: UpiAppId
  info_label :: jstring
  verified :: bool

record GeneratedLink =
  url :: jstring
  link_fallbackUrl :: "jstring option"
  link_app :: AppInfo
  link_platform :: Platform
  link_action :: UpiAction

definition genericUri :: "UpiAction \<Rightarrow> jstring \<Rightarrow> jstring" where
  "genericUri act upiQuery = S ''upi://'' @ action_text act @ S ''?'' @ upiQuery"

definition buildAndroidIntentUrl ::
  "UpiApp list \<Rightarrow> UpiAppId \<Rightarrow> jstring \<Rightarrow> UpiAction \<Rightarrow> jstring option \<Rightarrow> js_error + jstring"
where
  "buildAndroidIntentUrl appsData appId' upiQuery act fallback =
     (case (case getApp appsData appId' of
              None \<Rightarrow> None
            | Some a \<Rightarrow> if truthy (androidPackage a) then androidPackage a else None) of
        None \<Rightarrow> Inr (genericUri act upiQuery)
      | Some package \<Rightarrow>
          (let intentUrl = S ''intent://'' @ action_text act @ S ''?'' @ upiQuery @
                           S ''#Intent;scheme=upi;package='' @ package
           in if truthy fallback
              then (case encodeURIComponent (the fallback) of
                      None \<Rightarrow> Inl URIError
                    | Some encodedFallback \<Rightarrow>
                        Inr (intentUrl @ S '';S.browser_fallback_url='' @ encodedFallback @
                             S '';end''))
              else Inr (intentUrl @ S '';end'')))"

text \<open>
  \<^verbatim>\<open>String.prototype.replace\<close> with a string pattern: the first occurrence is replaced,
  and in the replacement \<^verbatim>\<open>$$\<close> stands for \<^verbatim>\<open>$\<close>, \<^verbatim>\<open>$&\<close> for the match, and
  \<^verbatim>\<open>$`\<close> and \<^verbatim>\<open>$'\<close> for the text before and after it.
\<close>

fun find_first :: "jstring \<Rightarrow> jstring \<Rightarrow> (jstring \<times> jstring) option" where
  "find_first w [] = (if w = [] then Some ([], []) else None)"
| "find_first w (c # cs) =
     (case strip_prefix w (c # cs) of
        Some r \<Rightarrow> Some ([], r)
      | None \<Rightarrow> (case find_first w cs of
                   None \<Rightarrow> None
                 | Some (pre, post) \<Rightarrow> Some (c # pre, post)))"

fun substitution :: "jstring \<Rightarrow> jstring \<Rightarrow> jstring \<Rightarrow> jstring \<Rightarrow> jstring" where
  "substitution m pre post [] = []"
| "substitution m pre post [c] = [c]"
| "substitution m pre post (c # d # r) =
     (if c = 0x24 \<and> d = 0x24 then 0x24 # substitution m pre post r
      else if c = 0x24 \<and> d = 0x26 then m @ substitution m pre post r
      else if c = 0x24 \<and> d = 0x60 then pre @ substitution m pre post r
      else if c = 0x24 \<and> d = 0x27 then post @ substitution m pre post r
      else c # substitution m pre post (d # r))"

definition replace_first :: "jstring \<Rightarrow> jstring \<Rightarrow> jstring \<Rightarrow> jstring" where
  "replace_first s w replacement =
     (case find_first w s of
        None \<Rightarrow> s
      | Some (pre, post) \<Rightarrow> pre @ substitution w pre post replacement @ post)"

definition buildIosSchemeUrl :: "UpiApp list \<Rightarrow> UpiAppId \<Rightarrow> jstring \<Rightarrow> UpiAction \<Rightarrow> jstring" where
  "buildIosSchemeUrl appsData appId' upiQuery act =
     (let template = getAppLinkTemplate appsData appId' Ios act in
      if \<not> truthy template then genericUri act upiQuery
      else replace_first (the template) (S ''{query}'') upiQuery)"

definition definedPairs :: "PartialUpiParams \<Rightarrow> (jstring \<times> jstring) list" where
  "definedPairs ps =
     concat (map (\<lambda>(key, value). case value of
                                    None \<Rightarrow> []
                                  | Some v \<Rightarrow> if v \<noteq> [] then [(key, v)] else [])
                 (Object_entries ps))"

definition extractQueryFromUri :: "jstring \<Rightarrow> js_error + jstring" where
  "extractQueryFromUri uri =
     (case parseUpiUri uri of
        Inl e \<Rightarrow> Inl (Wrapped e)
      | Inr (act, parsedParams) \<Rightarrow> Inr (URLSearchParams_toString (definedPairs parsedParams)))"

definition resolveBaseUri :: "AppLinkOptions \<Rightarrow> UpiAction \<Rightarrow> js_error + jstring" where
  "resolveBaseUri options act =
     (if truthy (upiUri options) then Inr (the (upiUri options))
      else (case upiParams options of
              Some ps \<Rightarrow> buildUpiUri ps act
            | None \<Rightarrow> Inl (Error (S ''Either upiUri or upiParams must be provided''))))"

definition buildAppLink :: "UpiApp list \<Rightarrow> AppLinkOptions \<Rightarrow> js_error + GeneratedLink" where
  "buildAppLink appsData options =
     (let act = (case action options of None \<Rightarrow> Pay | Some a \<Rightarrow> a);
          withFallback = (case includeFallback options of None \<Rightarrow> True | Some b \<Rightarrow> b)
      in
      if \<not> truthy (upiUri options) \<and> upiParams options = None
      then Inl (Error (S ''Either upiUri or upiParams must be provided''))
      else
        (case getApp appsData (appId options) of
           None \<Rightarrow> Inl (Error (S ''Unknown app ID: '' @ appId_text (appId options)))
         | Some a \<Rightarrow>
             (case resolveBaseUri options act of
                Inl e \<Rightarrow> Inl e
              | Inr baseUri \<Rightarrow>
                  (case extractQueryFromUri baseUri of
                     Inl e \<Rightarrow> Inl e
                   | Inr upiQuery \<Rightarrow>
                       (let info = \<lparr>info_id = appId options, info_label = label a,
                                    verified = (status a = Verified)\<rparr>
                        in
                        if platform options = Android then
                          (let resolvedFallbackUrl =
                                 (if withFallback
                                  then (if truthy (fallbackUrl options) then fallbackUrl options
                                        else getStoreUrl appsData (appId options) Android)
                                  else None)
                           in case buildAndroidIntentUrl appsData (appId options) upiQuery act
                                     resolvedFallbackUrl of
                                Inl e \<Rightarrow> Inl e
                              | Inr u \<Rightarrow>
                                  Inr \<lparr>url = u, link_fallbackUrl = resolvedFallbackUrl,
                                       link_app = info, link_platform = platform options,
                                       link_action = act\<rparr>)
                        else
                          (let u = buildIosSchemeUrl appsData (appId options) upiQuery act;
                               resolvedFallbackUrl =
                                 (if truthy (fallbackUrl options) then fallbackUrl options
                                  else getStoreUrl appsData (appId options) Ios)
                           in Inr \<lparr>url = u, link_fallbackUrl = resolvedFallbackUrl,
                                   link_app = info, link_platform = platform options,
                                   link_action = act\<rparr>))))))"

section \<open>A registry for examples\<close>

text \<open>
  Two entries as the tests and the README of the repository describe them: Google Pay
  with its Android package, its iOS scheme and its store pages, and the generic entry,
  which has no Android package and no store page. The examples below run on this list.
\<close>

definition sampleApps :: "UpiApp list" where
  "sampleApps =
     [\<lparr>app_id = Gpay, label = S ''Google Pay'',
        androidPackage = Some (S ''com.google.android.apps.nbu.paisa.user''),
        android = \<lparr>pay = S ''intent://pay?{query}'', mandate = S ''intent://mandate?{query}''\<rparr>,
        ios = \<lparr>pay = S ''gpay://upi/pay?{query}'', mandate = S ''gpay://upi/mandate?{query}''\<rparr>,
        stores = Some \<lparr>play = Some (S ''https://play.google.com/store/apps/details?id=com.google.android.apps.nbu.paisa.user''),
                       app = Some (S ''https://apps.apple.com/in/app/google-pay-save-pay-manage/id1193357041'')\<rparr>,
        status = Verified\<rparr>,
      \<lparr>app_id = Generic, label = S ''UPI'', androidPackage = None,
        android = \<lparr>pay = S ''upi://pay?{query}'', mandate = S ''upi://mandate?{query}''\<rparr>,
        ios = \<lparr>pay = S ''upi://pay?{query}'', mandate = S ''upi://mandate?{query}''\<rparr>,
        stores = None, status = Verified\<rparr>]"

text \<open>
  A call of \<open>buildAppLink\<close> that supplies both a URI and a parameter set, and the link
  it returns on the registry above.
\<close>

definition sampleOptions :: AppLinkOptions where
  "sampleOptions =
     \<lparr>appId = Gpay, upiUri = Some (S ''upi://pay?pa=a%40b&pn=x''),
      upiParams = Some [(S ''pa'', Some (S ''c@d'')), (S ''pn'', Some (S ''y''))],
      platform = Android, action = None, fallbackUrl = None, includeFallback = None\<rparr>"

definition sampleLink :: GeneratedLink where
  "sampleLink =
     \<lparr>url = S ''intent://pay?pa=a%40b&pn=x#Intent;scheme=upi;package=com.google.android.apps.nbu.paisa.user;S.browser_fallback_url=https%3A%2F%2Fplay.google.com%2Fstore%2Fapps%2Fdetails%3Fid%3Dcom.google.android.apps.nbu.paisa.user;end'',
      link_fallbackUrl = Some (S ''https://play.google.com/store/apps/details?id=com.google.android.apps.nbu.paisa.user''),
      link_app = \<lparr>info_id = Gpay, info_label = S ''Google Pay'', verified = True\<rparr>,
      link_platform = Android, link_action = Pay\<rparr>"

section \<open>The validation of one entry, in the words of the specification\<close>

text \<open>
  The specification describes what happens to one key of the input: a value that is
  undefined or empty after trimming is skipped; otherwise, when the key has a rule, the
  maximum length, the pattern and the allowed values are checked in this order and the
  first check that fails gives the key's one error; a key without failure keeps its
  trimmed value. The two functions below say that, to be compared with the loop body
  \<open>validate_entry\<close> of the source.
\<close>

definition spec_first_failure :: "jstring \<Rightarrow> ValidationRule \<Rightarrow> jstring \<Rightarrow> jstring option" where
  "spec_first_failure key rule t =
     (if exceedsMaxLength rule t then Some (lengthMessage key rule)
      else if failsPattern rule t then Some (patternMessage key rule)
      else if notAllowed rule t then Some (allowedMessage key rule)
      else None)"

definition spec_entry_errors :: "jstring \<times> jstring option \<Rightarrow> jstring list" where
  "spec_entry_errors entry =
     (case snd entry of
        None \<Rightarrow> []
      | Some v \<Rightarrow>
          if trim v = [] then []
          else (case map_of VALIDATION_RULES (fst entry) of
                  None \<Rightarrow> []
                | Some rule \<Rightarrow>
                    (case spec_first_failure (fst entry) rule (trim v) of
                       None \<Rightarrow> []
                     | Some m \<Rightarrow> [m])))"

definition spec_entry_value :: "jstring \<times> jstring option \<Rightarrow> jstring option" where
  "spec_entry_value entry =
     (case snd entry of
        None \<Rightarrow> None
      | Some v \<Rightarrow>
          if trim v = [] then None
          else (case map_of VALIDATION_RULES (fst entry) of
                  None \<Rightarrow> Some (trim v)
                | Some rule \<Rightarrow>
                    (case spec_first_failure (fst entry) rule (trim v) of
                       None \<Rightarrow> Some (trim v)
                     | Some m \<Rightarrow> None)))"

definition spec_required_errors :: "PartialUpiParams \<Rightarrow> jstring list" where
  "spec_required_errors params =
     (if isMissing (obj_get params (S ''pa'')) then [S ''Payee Address (pa) is required'']
      else []) @
     (if isMissing (obj_get params (S ''pn'')) then [S ''Payee Name (pn) is required'']
      else [])"

text \<open>
  What the loop keeps of one entry, and what the specification promises for a key of the
  whole input: the value kept of the key's entry.
\<close>

definition keep :: "PartialUpiParams \<Rightarrow> jstring \<times> jstring option \<Rightarrow> PartialUpiParams" where
  "keep norm e =
     (case spec_entry_value e of None \<Rightarrow> norm | Some t \<Rightarrow> obj_set norm (fst e) (Some t))"

definition spec_kept :: "PartialUpiParams \<Rightarrow> jstring \<Rightarrow> jstring option" where
  "spec_kept p k = (case map_of p k of None \<Rightarrow> None | Some v \<Rightarrow> spec_entry_value (k, v))"

definition contains :: "jstring \<Rightarrow> jstring \<Rightarrow> bool" where
  "contains s w = (\<exists>pre post. s = pre @ w @ post)"

section \<open>Notions for the statements about encoding and parsing\<close>

text \<open>
  A scalar value is a code point that is not a surrogate. \<open>toBytes\<close> is the UTF-8
  encoding of a string taken as a scalar value string, and \<open>usv\<close> that string itself:
  the string with every unpaired surrogate replaced by U+FFFD. \<open>narrow\<close> reads a code
  unit below 256 as a byte.
\<close>

definition scalar :: "nat \<Rightarrow> bool" where
  "scalar cp = (cp < 0x110000 \<and> \<not> (0xD800 \<le> cp \<and> cp \<le> 0xDFFF))"

abbreviation "dec0 \<equiv> utf8_decode_from 0 0 0x80 0xBF"

definition toBytes :: "jstring \<Rightarrow> byte list" where
  "toBytes s = utf8_encode (codePoints s)"

definition usv :: "jstring \<Rightarrow> jstring" where
  "usv s = fromCodePoints (codePoints s)"

definition narrow :: "16 word \<Rightarrow> byte" where
  "narrow c = ucast c"

text \<open>
  The code units that the serializers write: \<open>safe_unit\<close> holds of those that
  \<^verbatim>\<open>URLSearchParams.prototype.toString\<close> writes for a name or a value, and
  \<open>query_unit\<close> of those of a whole query string. \<open>piece\<close> is the text of one name
  and value in a query string, and \<open>plusToSpace\<close> the first step of decoding it.
\<close>

definition safe_unit :: "16 word \<Rightarrow> bool" where
  "safe_unit c =
     (let n = unat c in
      (0x30 \<le> n \<and> n \<le> 0x39) \<or> (0x41 \<le> n \<and> n \<le> 0x5A) \<or> (0x61 \<le> n \<and> n \<le> 0x7A) \<or>
      n = 0x2A \<or> n = 0x2D \<or> n = 0x2E \<or> n = 0x5F \<or> n = 0x2B \<or> n = 0x25)"

definition plusToSpace :: "byte \<Rightarrow> byte" where
  "plusToSpace b = (if b = 0x2B then 0x20 else b)"

definition query_unit :: "16 word \<Rightarrow> bool" where
  "query_unit c = (safe_unit c \<or> c = 0x26 \<or> c = 0x3D)"

definition piece :: "jstring \<times> jstring \<Rightarrow> jstring" where
  "piece nv = urlencoded (fst nv) @ S ''='' @ urlencoded (snd nv)"

text \<open>
  An entry is settled when validation keeps it as it is: its value is a string that is
  its own trimmed value, not empty, and passes the rule of its key. A map is clean when
  its keys are distinct, its entries are settled and \<^verbatim>\<open>__proto__\<close> is not among its
  keys. These are the invariants of \<open>normalizedParams\<close>.
\<close>

definition settled :: "jstring \<times> jstring option \<Rightarrow> bool" where
  "settled e = (case snd e of None \<Rightarrow> False | Some v \<Rightarrow> spec_entry_value e = Some v)"

definition clean :: "PartialUpiParams \<Rightarrow> bool" where
  "clean ob \<longleftrightarrow>
     distinct (map fst ob) \<and> (\<forall>e \<in> set ob. settled e) \<and> S ''__proto__'' \<notin> fst ` set ob"

text \<open>
  \<open>queryPairs\<close> is the list that \<open>buildUpiUri\<close> hands to the serializer, and
  \<open>wrap\<close> the object with those pairs as its properties, in that order.
  \<open>wellFormedParams\<close> says that no key and no value of a parameter set contains a
  surrogate outside a pair. \<open>genericOptions\<close> are the options of a call of
  \<open>buildAppLink\<close> for the app \<open>generic\<close> on Android with a URI and nothing else but,
  possibly, an action.
\<close>

definition wrap :: "(jstring \<times> jstring) list \<Rightarrow> PartialUpiParams" where
  "wrap qs = map (\<lambda>(k, v). (k, Some v)) qs"

definition queryPairs :: "PartialUpiParams \<Rightarrow> (jstring \<times> jstring) list" where
  "queryPairs norm = orderedPairs norm @ additionalPairs norm"

definition wellFormedParams :: "PartialUpiParams \<Rightarrow> bool" where
  "wellFormedParams params =
     (\<forall>(k, x) \<in> set params. isWellFormed k \<and> (case x of None \<Rightarrow> True | Some v \<Rightarrow> isWellFormed v))"

definition genericOptions :: "jstring \<Rightarrow> UpiAction option \<Rightarrow> AppLinkOptions" where
  "genericOptions u act =
     \<lparr>appId = Generic, upiUri = Some u, upiParams = None, platform = Android, action = act,
      fallbackUrl = None, includeFallback = None\<rparr>"

section \<open>Properties\<close>

subsection \<open>Regular expression search for a literal\<close>

lemma strip_prefix_Some: "strip_prefix w s = Some r \<longleftrightarrow> s = w @ r"
  by (induction w s rule: strip_prefix.induct) auto

lemma run_Lit_nonempty: "run (Lit w) s \<noteq> [] \<longleftrightarrow> (\<exists>r. s = w @ r)"
proof (cases "strip_prefix w s")
  case None
  then have "\<And>r. s \<noteq> w @ r" using strip_prefix_Some [of w s] by auto
  with None show ?thesis by simp
next
  case (Some r)
  then show ?thesis using strip_prefix_Some [of w s r] by auto
qed

lemma self_in_tails: "t \<in> set (tails t)"
  by (cases t) auto

lemma set_tails: "t \<in> set (tails s) \<longleftrightarrow> (\<exists>pre. s = pre @ t)"
proof (induction s)
  case Nil
  then show ?case by simp
next
  case (Cons x xs)
  show ?case
  proof
    assume "t \<in> set (tails (x # xs))"
    then consider "t = x # xs" | "t \<in> set (tails xs)" by auto
    then show "\<exists>pre. x # xs = pre @ t"
    proof cases
      case 1
      then show ?thesis by simp
    next
      case 2
      then obtain pre where "xs = pre @ t" using Cons.IH by blast
      then have "x # xs = (x # pre) @ t" by simp
      then show ?thesis by blast
    qed
  next
    assume "\<exists>pre. x # xs = pre @ t"
    then obtain pre where p: "x # xs = pre @ t" by blast
    show "t \<in> set (tails (x # xs))"
    proof (cases pre)
      case Nil
      with p show ?thesis using self_in_tails [of t] by simp
    next
      case (Cons y ys)
      with p have "xs = ys @ t" by simp
      then show ?thesis using Cons.IH by auto
    qed
  qed
qed

lemma search_literal: "regexp_test (Anywhere (Lit w)) s \<longleftrightarrow> contains s w"
proof -
  have "regexp_test (Anywhere (Lit w)) s \<longleftrightarrow> (\<exists>t \<in> set (tails s). \<exists>r. t = w @ r)"
    unfolding regexp_test.simps list_ex_iff run_Lit_nonempty ..
  also have "\<dots> \<longleftrightarrow> (\<exists>pre r. s = pre @ w @ r)"
    using set_tails [of _ s] by blast
  finally show ?thesis by (simp add: contains_def)
qed

subsection \<open>Validation\<close>

lemma trim_Nil: "trim [] = []" by (simp add: trim_def)

lemma map_of_obj_put: "map_of (obj_put ob k v) = (map_of ob)(k \<mapsto> v)"
  by (induction ob k v rule: obj_put.induct) (auto simp: fun_eq_iff)

lemma keys_obj_put: "fst ` set (obj_put ob k v) = insert k (fst ` set ob)"
  by (induction ob k v rule: obj_put.induct) auto

lemma distinct_obj_put: "distinct (map fst ob) \<Longrightarrow> distinct (map fst (obj_put ob k v))"
  by (induction ob k v rule: obj_put.induct) (auto simp: keys_obj_put)

lemma map_of_obj_set:
  "map_of (obj_set ob k v) = (if k = S ''__proto__'' then map_of ob else (map_of ob)(k \<mapsto> v))"
  by (simp add: obj_set_def map_of_obj_put)

lemma distinct_obj_set: "distinct (map fst ob) \<Longrightarrow> distinct (map fst (obj_set ob k v))"
  by (simp add: obj_set_def distinct_obj_put)

lemma am_cu_not_proto: "S ''am'' \<noteq> S ''__proto__''" "S ''cu'' \<noteq> S ''__proto__''"
  by (simp_all add: S_def unit_of_def)

lemma validate_entry_spec:
  "validate_entry (errs, norm) e =
     (errs @ spec_entry_errors e,
      case spec_entry_value e of None \<Rightarrow> norm | Some t \<Rightarrow> obj_set norm (fst e) (Some t))"
  by (cases e) (auto simp: validate_entry_def spec_entry_errors_def spec_entry_value_def
      spec_first_failure_def trim_Nil Let_def split: option.splits)

lemma foldl_validate_entry:
  "foldl validate_entry (errs, norm) xs =
     (errs @ concat (map spec_entry_errors xs), foldl keep norm xs)"
  by (induction xs arbitrary: errs norm) (auto simp: validate_entry_spec keep_def)

lemma set_Object_entries: "set (Object_entries ob) = set ob"
  by (auto simp: Object_entries_def)

lemma mset_Object_entries: "mset (Object_entries ob) = mset ob"
  by (simp add: Object_entries_def)

lemma Object_entries_plain:
  "\<forall>kv \<in> set ob. \<not> isArrayIndex (fst kv) \<Longrightarrow> Object_entries ob = ob"
  by (simp add: Object_entries_def filter_empty_conv)

lemma distinct_Object_entries:
  "distinct (map fst (Object_entries ob)) = distinct (map fst ob)"
proof -
  have "mset (map fst (Object_entries ob)) = mset (map fst ob)"
    using mset_Object_entries [of ob] by (metis mset_map)
  then show ?thesis by (metis distinct_count_atmost_1 set_mset_mset)
qed

lemma map_of_Object_entries:
  "distinct (map fst ob) \<Longrightarrow> map_of (Object_entries ob) = map_of ob"
  by (simp add: map_of_inject_set distinct_Object_entries set_Object_entries)

lemma spec_entry_value_nonempty: "spec_entry_value e = Some t \<Longrightarrow> t \<noteq> []"
  by (auto simp: spec_entry_value_def split: option.splits if_splits)

lemma map_of_foldl_keep:
  "distinct (map fst xs) \<Longrightarrow>
   map_of (foldl keep norm xs) k =
     (case map_of xs k of
        None \<Rightarrow> map_of norm k
      | Some v \<Rightarrow> (case spec_entry_value (k, v) of
                    None \<Rightarrow> map_of norm k
                  | Some t \<Rightarrow> if k = S ''__proto__'' then map_of norm k else Some (Some t)))"
proof (induction xs arbitrary: norm)
  case Nil
  then show ?case by simp
next
  case (Cons x xs)
  obtain k' v' where x: "x = (k', v')" by (cases x)
  from Cons.prems x have notin: "map_of xs k' = None" and d: "distinct (map fst xs)"
    by (auto simp: map_of_eq_None_iff)
  show ?case
    using Cons.IH [OF d, of "keep norm x"] notin
    by (auto simp: x keep_def map_of_obj_set split: option.splits)
qed

lemma own_foldl_keep:
  assumes "distinct (map fst p)"
  shows "map_of (foldl keep [] (Object_entries p)) k =
           (if k = S ''__proto__'' then None else map_option Some (spec_kept p k))"
  using map_of_foldl_keep [of "Object_entries p" "[]" k] assms
  by (auto simp: spec_kept_def distinct_Object_entries map_of_Object_entries
      split: option.splits)

lemma obj_get_foldl_keep:
  assumes "distinct (map fst p)"
  shows "obj_get (foldl keep [] (Object_entries p)) k =
           (if k = S ''__proto__'' then None else spec_kept p k)"
  by (simp add: obj_get_def own_foldl_keep [OF assms] split: option.splits)

lemma truthy_spec_kept: "truthy (spec_kept p k) \<longleftrightarrow> spec_kept p k \<noteq> None"
  by (auto simp: truthy_def spec_kept_def split: option.splits dest: spec_entry_value_nonempty)

lemma errors_validateUpiParams:
  "errors (validateUpiParams p) =
     spec_required_errors p @ concat (map spec_entry_errors (Object_entries p))"
  by (simp add: validateUpiParams_def spec_required_errors_def foldl_validate_entry Let_def)

lemma isValid_validateUpiParams:
  "isValid (validateUpiParams p) \<longleftrightarrow> errors (validateUpiParams p) = []"
  by (simp add: validateUpiParams_def Let_def split: prod.splits)

lemma normalizedParams_validateUpiParams:
  "normalizedParams (validateUpiParams p) =
     (let norm = foldl keep [] (Object_entries p) in
      if truthy (obj_get norm (S ''am'')) \<and> \<not> truthy (obj_get norm (S ''cu''))
      then obj_set norm (S ''cu'') (Some (S ''INR'')) else norm)"
  by (simp add: validateUpiParams_def foldl_validate_entry Let_def)

lemma obj_get_obj_set:
  "k \<noteq> S ''__proto__'' \<Longrightarrow>
   obj_get (obj_set ob k v) k' = (if k' = k then v else obj_get ob k')"
  by (simp add: obj_get_def map_of_obj_set)

lemma own_normalizedParams:
  assumes "distinct (map fst p)"
  shows "map_of (normalizedParams (validateUpiParams p)) k =
           (if k = S ''__proto__'' then None
            else if k = S ''cu'' \<and> spec_kept p (S ''am'') \<noteq> None \<and> spec_kept p (S ''cu'') = None
            then Some (Some (S ''INR'')) else map_option Some (spec_kept p k))"
  by (simp add: normalizedParams_validateUpiParams Let_def map_of_obj_set am_cu_not_proto
      obj_get_foldl_keep [OF assms] own_foldl_keep [OF assms] truthy_spec_kept)

lemma obj_get_normalizedParams:
  assumes "distinct (map fst p)" and "k \<noteq> S ''__proto__''"
  shows "obj_get (normalizedParams (validateUpiParams p)) k =
           (if k = S ''cu'' \<and> spec_kept p (S ''am'') \<noteq> None \<and> spec_kept p (S ''cu'') = None
            then Some (S ''INR'') else spec_kept p k)"
  using assms(2)
  by (simp add: obj_get_def own_normalizedParams [OF assms(1)] split: option.splits)

subsection \<open>Evaluation on concrete inputs\<close>

text \<open>The definitions that the simplifier unfolds to run the model on a concrete input.\<close>

lemmas ev = S_def unit_of_def between_def isWhiteSpace_def trim_def obj_set_def obj_get_def
  truthy_def
  validateUpiParams_def validate_entry_def VALIDATION_RULES_def isMissing_def
  exceedsMaxLength_def failsPattern_def notAllowed_def lengthMessage_def patternMessage_def
  allowedMessage_def paPattern_def amPattern_def trPattern_def urlPattern_def mcPattern_def
  digit_def rng_def one_def Object_entries_def isArrayIndex_def isDigit_def digitsValue_def
  Let_def spec_required_errors_def spec_entry_errors_def spec_entry_value_def
  spec_first_failure_def spec_kept_def

lemma decimal_4: "decimal 4 = S ''4''"
  by (simp add: decimal.simps S_def unit_of_def)

lemma map_of_rule_am:
  "map_of VALIDATION_RULES (S ''am'') =
     Some \<lparr>required = Some False, maxLength = Some 18, pattern = Some amPattern,
        allowedValues = None, description = S ''Amount in INR (up to 2 decimal places)''\<rparr>"
  by (simp add: VALIDATION_RULES_def S_def unit_of_def)

lemma first_failure_prefix:
  "spec_first_failure key rule t = Some m \<Longrightarrow> \<exists>rest. m = key @ S '': '' @ rest"
  by (auto simp: spec_first_failure_def lengthMessage_def patternMessage_def
      allowedMessage_def S_def unit_of_def split: if_splits)

lemma entry_error_is_first_failure:
  assumes "m \<in> set (spec_entry_errors e)"
  shows "\<exists>rule t. spec_first_failure (fst e) rule t = Some m"
proof (cases "snd e")
  case None
  with assms show ?thesis by (simp add: spec_entry_errors_def)
next
  case (Some v)
  show ?thesis
  proof (cases "map_of VALIDATION_RULES (fst e)")
    case None
    with assms Some show ?thesis by (simp add: spec_entry_errors_def split: if_split_asm)
  next
    case rule: (Some rule)
    show ?thesis
    proof (cases "spec_first_failure (fst e) rule (trim v)")
      case None
      with assms Some rule show ?thesis
        by (simp add: spec_entry_errors_def split: if_split_asm)
    next
      case (Some m')
      with assms \<open>snd e = Some v\<close> rule have "m = m'"
        by (simp add: spec_entry_errors_def split: if_split_asm)
      with Some show ?thesis by (intro exI) simp
    qed
  qed
qed

lemma entry_error_prefix: "m \<in> set (spec_entry_errors e) \<Longrightarrow> \<exists>rest. m = fst e @ S '': '' @ rest"
proof -
  assume "m \<in> set (spec_entry_errors e)"
  from entry_error_is_first_failure [OF this]
  obtain rule t where "spec_first_failure (fst e) rule t = Some m" by (elim exE)
  then show ?thesis by (rule first_failure_prefix)
qed

text \<open>
  C6: \<open>buildUpiUri\<close> raises exactly when validation reports \<open>isValid = False\<close>, and the
  error's message is \<^verbatim>\<open>Invalid UPI parameters: \<close> followed by the validation errors
  joined with a comma and a space. \<open>validateUpiParams\<close> itself is a total function to the
  result record: it raises nothing, \<open>isValid\<close> says that the error list is empty, and the
  normalized map is part of the result in both cases.
\<close>

theorem C6_buildUpiUri_raises_iff_invalid:
  "(isValid (validateUpiParams p) \<longleftrightarrow> errors (validateUpiParams p) = []) \<and>
   ((\<exists>e. buildUpiUri p a = Inl e) \<longleftrightarrow> \<not> isValid (validateUpiParams p)) \<and>
   (if isValid (validateUpiParams p) then \<exists>u. buildUpiUri p a = Inr u
    else buildUpiUri p a =
           Inl (Error (S ''Invalid UPI parameters: '' @
                       join (S '', '') (errors (validateUpiParams p)))))"
  by (simp add: isValid_validateUpiParams buildUpiUri_def Let_def)

text \<open>
  C3, as stated, fails: an amount that does not pass its own rule is left out of the
  normalized map, and the default currency is set only when the normalized map has an
  amount.
\<close>

theorem C3_invalid_amount_counterexample:
  "obj_get [(S ''pa'', Some (S ''a@b'')), (S ''pn'', Some (S ''x'')), (S ''am'', Some (S ''abc''))]
     (S ''am'') = Some (S ''abc'') \<and>
   trim (S ''abc'') \<noteq> [] \<and>
   obj_get [(S ''pa'', Some (S ''a@b'')), (S ''pn'', Some (S ''x'')), (S ''am'', Some (S ''abc''))]
     (S ''cu'') = None \<and>
   obj_get (normalizedParams (validateUpiParams
     [(S ''pa'', Some (S ''a@b'')), (S ''pn'', Some (S ''x'')), (S ''am'', Some (S ''abc''))]))
     (S ''cu'') = None"
  by (simp add: ev)

text \<open>
  C3, amended: when \<open>am\<close> is present with a trimmed value that is not empty and passes
  the rule of \<open>am\<close> (at most 18 code units, digits with at most two decimals), and \<open>cu\<close>
  is absent, the normalized map has \<open>cu = INR\<close> (and \<open>am\<close> with its trimmed value).
\<close>

theorem C3_default_currency:
  assumes "distinct (map fst p)"
    and "obj_get p (S ''am'') = Some v"
    and "trim v \<noteq> []"
    and "length (trim v) \<le> 18"
    and "regexp_test amPattern (trim v)"
    and "obj_get p (S ''cu'') = None"
  shows "obj_get (normalizedParams (validateUpiParams p)) (S ''cu'') = Some (S ''INR'') \<and>
         obj_get (normalizedParams (validateUpiParams p)) (S ''am'') = Some (trim v)"
proof -
  from assms(2) have am: "map_of p (S ''am'') = Some (Some v)"
    by (auto simp: obj_get_def split: option.splits)
  have "spec_entry_value (S ''am'', Some v) = Some (trim v)"
    using assms(3,4,5)
    by (simp add: spec_entry_value_def map_of_rule_am spec_first_failure_def
        exceedsMaxLength_def failsPattern_def notAllowed_def)
  with am have kam: "spec_kept p (S ''am'') = Some (trim v)"
    by (simp add: spec_kept_def)
  from assms(6) have kcu: "spec_kept p (S ''cu'') = None"
    by (auto simp: obj_get_def spec_kept_def spec_entry_value_def split: option.splits)
  have ne: "S ''am'' \<noteq> S ''cu''"
    by (simp add: S_def unit_of_def)
  show ?thesis
    using kam kcu ne
    by (simp add: obj_get_normalizedParams [OF assms(1)] am_cu_not_proto)
qed

theorem C3_default_currency_witness:
  "obj_get (normalizedParams (validateUpiParams
     [(S ''pa'', Some (S ''a@b'')), (S ''pn'', Some (S ''x'')), (S ''am'', Some (S '' 10.5 ''))]))
     (S ''cu'') = Some (S ''INR'') \<and>
   obj_get (normalizedParams (validateUpiParams
     [(S ''pa'', Some (S ''a@b'')), (S ''pn'', Some (S ''x'')), (S ''am'', Some (S '' 10.5 ''))]))
     (S ''am'') = Some (trim (S '' 10.5 ''))"
proof -
  let ?p = "[(S ''pa'', Some (S ''a@b'')), (S ''pn'', Some (S ''x'')),
             (S ''am'', Some (S '' 10.5 ''))]"
  have 1: "distinct (map fst ?p)" by (simp add: ev)
  have 2: "obj_get ?p (S ''am'') = Some (S '' 10.5 '')" by (simp add: ev)
  have 3: "trim (S '' 10.5 '') \<noteq> []" by (simp add: ev)
  have 4: "length (trim (S '' 10.5 '')) \<le> 18" by (simp add: ev)
  have 5: "regexp_test amPattern (trim (S '' 10.5 ''))" by (simp add: ev)
  have 6: "obj_get ?p (S ''cu'') = None" by (simp add: ev)
  from C3_default_currency [OF 1 2 3 4 5 6] show ?thesis .
qed

text \<open>
  C4, as stated, fails for the key \<open>cu\<close>: a currency that is not allowed gives its one
  error and its value is left out, but when the input has a valid amount the default
  currency is set afterwards, so the key \<open>cu\<close> is in the normalized map all the same.
\<close>

theorem C4_rejected_currency_counterexample:
  "errors (validateUpiParams
     [(S ''pa'', Some (S ''a@b'')), (S ''pn'', Some (S ''x'')), (S ''am'', Some (S ''1'')),
      (S ''cu'', Some (S ''USD''))]) = [S ''cu: must be one of INR''] \<and>
   obj_get (normalizedParams (validateUpiParams
     [(S ''pa'', Some (S ''a@b'')), (S ''pn'', Some (S ''x'')), (S ''am'', Some (S ''1'')),
      (S ''cu'', Some (S ''USD''))])) (S ''cu'') = Some (S ''INR'')"
  by (simp add: ev)

text \<open>
  C4, amended. For an input object (its keys distinct): the error list is the errors for
  missing \<open>pa\<close> and \<open>pn\<close> followed, entry by entry, by the error of the first failing
  check of that entry (maximum length, then pattern, then allowed values), at most one
  for each key and starting with the key and a colon; a key without rule gives no error.
  For every key other than \<^verbatim>\<open>__proto__\<close> the normalized map has, as its own property,
  the trimmed value of the key's entry when no check failed, and no property when one
  failed or the value was empty; the one exception is \<open>cu\<close>, which is \<open>INR\<close> when a
  valid amount is kept and no currency is. (The statement says nothing on the key
  \<^verbatim>\<open>__proto__\<close>, for which the assignment to the normalized map is taken by the
  setter inherited from \<^verbatim>\<open>Object.prototype\<close>.)
\<close>

theorem C4_entry_validation:
  assumes "distinct (map fst p)"
  shows "errors (validateUpiParams p) =
           spec_required_errors p @ concat (map spec_entry_errors (Object_entries p)) \<and>
         (\<forall>e. length (spec_entry_errors e) \<le> 1 \<and>
              (\<forall>m \<in> set (spec_entry_errors e). \<exists>rest. m = fst e @ S '': '' @ rest) \<and>
              (spec_entry_errors e \<noteq> [] \<longrightarrow> spec_entry_value e = None) \<and>
              (map_of VALIDATION_RULES (fst e) = None \<longrightarrow> spec_entry_errors e = [])) \<and>
         (\<forall>k. k \<noteq> S ''__proto__'' \<longrightarrow>
              map_of (normalizedParams (validateUpiParams p)) k =
                (if k = S ''cu'' \<and> spec_kept p (S ''am'') \<noteq> None \<and>
                    spec_kept p (S ''cu'') = None
                 then Some (Some (S ''INR''))
                 else map_option Some (spec_kept p k)))"
proof (intro conjI allI ballI impI)
  show "errors (validateUpiParams p) =
          spec_required_errors p @ concat (map spec_entry_errors (Object_entries p))"
    by (rule errors_validateUpiParams)
next
  fix e show "length (spec_entry_errors e) \<le> 1"
    by (simp add: spec_entry_errors_def split: option.splits)
next
  fix e m assume "m \<in> set (spec_entry_errors e)"
  then show "\<exists>rest. m = fst e @ S '': '' @ rest" by (rule entry_error_prefix)
next
  fix e assume "spec_entry_errors e \<noteq> []"
  then show "spec_entry_value e = None"
    by (auto simp: spec_entry_errors_def spec_entry_value_def split: option.splits if_splits)
next
  fix e :: "jstring \<times> jstring option" assume "map_of VALIDATION_RULES (fst e) = None"
  then show "spec_entry_errors e = []"
    by (simp add: spec_entry_errors_def split: option.splits)
next
  fix k assume "k \<noteq> S ''__proto__''"
  then show "map_of (normalizedParams (validateUpiParams p)) k =
                (if k = S ''cu'' \<and> spec_kept p (S ''am'') \<noteq> None \<and>
                    spec_kept p (S ''cu'') = None
                 then Some (Some (S ''INR''))
                 else map_option Some (spec_kept p k))"
    by (simp add: own_normalizedParams [OF assms])
qed

theorem C4_entry_validation_witness:
  "errors (validateUpiParams
     [(S ''pa'', Some (S ''a.b'')), (S ''zz'', Some (S '' q '')), (S ''mc'', Some (S ''12345'')),
      (S ''__proto__'', Some (S ''x''))]) =
     [S ''Payee Name (pn) is required'', S ''pa: invalid format. Valid VPA format (user@psp)'',
      S ''mc: exceeds maximum length of 4 characters''] \<and>
   map_of (normalizedParams (validateUpiParams
     [(S ''pa'', Some (S ''a.b'')), (S ''zz'', Some (S '' q '')), (S ''mc'', Some (S ''12345'')),
      (S ''__proto__'', Some (S ''x''))]))
     (S ''zz'') = Some (Some (S ''q'')) \<and>
   map_of (normalizedParams (validateUpiParams
     [(S ''pa'', Some (S ''a.b'')), (S ''zz'', Some (S '' q '')), (S ''mc'', Some (S ''12345'')),
      (S ''__proto__'', Some (S ''x''))]))
     (S ''pa'') = None"
proof -
  let ?p = "[(S ''pa'', Some (S ''a.b'')), (S ''zz'', Some (S '' q '')),
             (S ''mc'', Some (S ''12345'')), (S ''__proto__'', Some (S ''x''))]"
  let ?rhs = "\<lambda>k. if k = S ''cu'' \<and> spec_kept ?p (S ''am'') \<noteq> None \<and>
                       spec_kept ?p (S ''cu'') = None
               then Some (Some (S ''INR''))
               else map_option Some (spec_kept ?p k)"
  have 1: "distinct (map fst ?p)" by (simp add: ev)
  note inst = C4_entry_validation [OF 1]
  have 2: "spec_required_errors ?p @ concat (map spec_entry_errors (Object_entries ?p)) =
             [S ''Payee Name (pn) is required'',
              S ''pa: invalid format. Valid VPA format (user@psp)'',
              S ''mc: exceeds maximum length of 4 characters'']"
    by (simp add: ev decimal_4)
  have 3: "?rhs (S ''zz'') = Some (Some (S ''q''))"
    by (simp add: ev)
  have 4: "?rhs (S ''pa'') = None"
    by (simp add: ev)
  have n: "S ''zz'' \<noteq> S ''__proto__''" "S ''pa'' \<noteq> S ''__proto__''"
    by (simp_all add: S_def unit_of_def)
  from inst have e: "errors (validateUpiParams ?p) =
      spec_required_errors ?p @ concat (map spec_entry_errors (Object_entries ?p))"
    by (rule conjunct1)
  from inst have k: "\<forall>k. k \<noteq> S ''__proto__'' \<longrightarrow>
      map_of (normalizedParams (validateUpiParams ?p)) k = ?rhs k"
    by (intro conjunct2 [OF conjunct2 [OF inst]])
  from k n have "map_of (normalizedParams (validateUpiParams ?p)) (S ''zz'') = ?rhs (S ''zz'')"
    and "map_of (normalizedParams (validateUpiParams ?p)) (S ''pa'') = ?rhs (S ''pa'')"
    by blast+
  with e 2 3 4 show ?thesis by (simp only:)
qed

subsection \<open>Parsing and link building\<close>

lemmas ev_url = isLead_def isTrail_def isSurrogate_def fromCodePoint_def fromCodePoints_def
  utf8_encode_cp_def utf8_encode_def utf8_decode_def hexDigit_def percentEncodeByte_def
  isAlnumByte_def urlencodedByte_def urlencoded_def URLSearchParams_toString_def hexVal_def
  urldecoded_def urlencoded_parse_def uriComponentByte_def encodeURIComponent_def
  isAsciiAlpha_def isAsciiDigit_def isSchemeChar_def asciiLower_def isC0OrSpace_def
  isTabOrNewline_def isSlash_def c0ControlSet_def querySet_def specialQuerySet_def
  forbiddenHostCodePoint_def specialSchemes_def utf8PercentEncode_def parse_scheme_def
  parse_host_def digitsNat_def port_ok_def parse_authority_def isWindowsDriveLetter_def
  url_host_def url_input_def new_URL_def collectParams_def parseUpiUri_def orderedKeys_def orderedPairs_def
  additionalPairs_def buildUpiUri_def

lemmas ev_host = isAsciiHexDigit_def hexValue_def forbiddenDomainCodePoint_def ipv4_in_ipv6_def
  ipv6_parse_def zeroRun_def ipv6_compress_def ipv6_serialize_def isRadixDigit_def
  radixValue_def ipv4_number_def dotParts_def endsInNumber_def ipv4_parse_def
  ipv4_serialize_def isPunycodeLabel_def parse_domain_def

lemmas ev_link = getAllApps_def getApp_def getAppLinkTemplate_def getStoreUrl_def genericUri_def
  buildAndroidIntentUrl_def replace_first_def buildIosSchemeUrl_def definedPairs_def
  extractQueryFromUri_def resolveBaseUri_def buildAppLink_def sampleApps_def

lemma S_pay_neq_mandate: "S ''pay'' \<noteq> S ''mandate''"
  by (simp add: S_def unit_of_def)

lemma action_text_inj: "action_text a = action_text b \<longleftrightarrow> a = b"
  by (cases a; cases b) (simp_all add: S_def unit_of_def)

lemma msg_either_neq_unknown:
  "S ''Unknown app ID: '' @ x \<noteq> S ''Either upiUri or upiParams must be provided''"
  by (simp add: S_def unit_of_def)

lemma msg_either_neq_invalid:
  "S ''Invalid UPI parameters: '' @ x \<noteq> S ''Either upiUri or upiParams must be provided''"
  by (simp add: S_def unit_of_def)

lemma buildUpiUri_not_either:
  "buildUpiUri ps a \<noteq> Inl (Error (S ''Either upiUri or upiParams must be provided''))"
  using msg_either_neq_invalid by (simp add: buildUpiUri_def Let_def)

lemma extractQuery_not_Error: "extractQueryFromUri u \<noteq> Inl (Error m)"
  by (simp add: extractQueryFromUri_def split: sum.splits prod.splits)

lemma buildAndroid_not_Error: "buildAndroidIntentUrl apps i q a f \<noteq> Inl (Error m)"
  by (simp add: buildAndroidIntentUrl_def Let_def split: option.splits)

lemma buildAppLink_Inr:
  assumes "buildAppLink apps options = Inr r"
  obtains a baseUri q where
    "getApp apps (appId options) = Some a"
    "resolveBaseUri options (case action options of None \<Rightarrow> Pay | Some x \<Rightarrow> x) = Inr baseUri"
    "extractQueryFromUri baseUri = Inr q"
    "link_action r = (case action options of None \<Rightarrow> Pay | Some x \<Rightarrow> x)"
    "link_platform r = platform options"
    "link_app r = \<lparr>info_id = appId options, info_label = label a, verified = (status a = Verified)\<rparr>"
    "platform options = Android \<Longrightarrow>
       link_fallbackUrl r =
         (if includeFallback options = Some False then None
          else if truthy (fallbackUrl options) then fallbackUrl options
          else getStoreUrl apps (appId options) Android) \<and>
       buildAndroidIntentUrl apps (appId options) q (link_action r) (link_fallbackUrl r) = Inr (url r)"
    "platform options = Ios \<Longrightarrow>
       link_fallbackUrl r =
         (if truthy (fallbackUrl options) then fallbackUrl options
          else getStoreUrl apps (appId options) Ios) \<and>
       url r = buildIosSchemeUrl apps (appId options) q (link_action r)"
proof -
  let ?act = "case action options of None \<Rightarrow> Pay | Some x \<Rightarrow> x"
  from assms obtain a where a: "getApp apps (appId options) = Some a"
    by (auto simp: buildAppLink_def Let_def split: if_splits option.splits)
  from assms a obtain baseUri where b: "resolveBaseUri options ?act = Inr baseUri"
    by (auto simp: buildAppLink_def Let_def split: if_splits sum.splits)
  from assms a b obtain q where q: "extractQueryFromUri baseUri = Inr q"
    by (auto simp: buildAppLink_def Let_def split: if_splits sum.splits)
  have inc: "(case includeFallback options of None \<Rightarrow> True | Some b \<Rightarrow> b) \<longleftrightarrow>
             includeFallback options \<noteq> Some False"
    by (cases "includeFallback options") auto
  show thesis
  proof (cases "platform options")
    case Android
    from assms a b q Android inc have
      "link_action r = ?act" "link_platform r = platform options"
      "link_app r = \<lparr>info_id = appId options, info_label = label a, verified = (status a = Verified)\<rparr>"
      "link_fallbackUrl r =
         (if includeFallback options = Some False then None
          else if truthy (fallbackUrl options) then fallbackUrl options
          else getStoreUrl apps (appId options) Android)"
      "buildAndroidIntentUrl apps (appId options) q (link_action r) (link_fallbackUrl r) = Inr (url r)"
      by (auto simp: buildAppLink_def Let_def split: if_splits sum.splits)
    with a b q Android show ?thesis by (intro that) auto
  next
    case Ios
    from assms a b q Ios have
      "link_action r = ?act" "link_platform r = platform options"
      "link_app r = \<lparr>info_id = appId options, info_label = label a, verified = (status a = Verified)\<rparr>"
      "link_fallbackUrl r =
         (if truthy (fallbackUrl options) then fallbackUrl options
          else getStoreUrl apps (appId options) Ios)"
      "url r = buildIosSchemeUrl apps (appId options) q (link_action r)"
      by (auto simp: buildAppLink_def Let_def split: if_splits sum.splits)
    with a b q Ios show ?thesis by (intro that) auto
  qed
qed

lemma buildAndroidIntentUrl_package:
  assumes "getApp apps i = Some a" "androidPackage a = Some pkg" "pkg \<noteq> []"
    and "buildAndroidIntentUrl apps i q act fb = Inr u"
  shows "(truthy fb \<longrightarrow> encodeURIComponent (the fb) \<noteq> None) \<and>
         u = S ''intent://'' @ action_text act @ S ''?'' @ q @
             S ''#Intent;scheme=upi;package='' @ pkg @
             (if truthy fb
              then S '';S.browser_fallback_url='' @ the (encodeURIComponent (the fb))
              else []) @
             S '';end''"
  using assms
  by (auto simp: buildAndroidIntentUrl_def truthy_def Let_def split: option.splits if_splits)

lemma parse_ex: "parseUpiUri (S ''upi://pay?pa=a%40b&pn=x'') =
   Inr (Pay, [(S ''pa'', Some (S ''a@b'')), (S ''pn'', Some (S ''x''))])"
  by (simp add: ev ev_url)

lemma enc_ex: "encodeURIComponent (S ''https://play.google.com/store/apps/details?id=com.google.android.apps.nbu.paisa.user'') =
  Some (S ''https%3A%2F%2Fplay.google.com%2Fstore%2Fapps%2Fdetails%3Fid%3Dcom.google.android.apps.nbu.paisa.user'')"
  by (simp add: ev ev_url)

lemma link_ex: "buildAppLink sampleApps sampleOptions = Inr sampleLink"
  unfolding buildAppLink_def extractQueryFromUri_def resolveBaseUri_def sampleOptions_def
    sampleLink_def
  by (simp add: parse_ex enc_ex ev ev_url getAllApps_def getApp_def getStoreUrl_def
      buildAndroidIntentUrl_def definedPairs_def sampleApps_def)

theorem C6_buildUpiUri_raises_iff_invalid_witness:
  "\<not> isValid (validateUpiParams [(S ''pa'', Some (S ''a.b'')), (S ''pn'', Some (S ''x''))]) \<and>
   buildUpiUri [(S ''pa'', Some (S ''a.b'')), (S ''pn'', Some (S ''x''))] Pay =
     Inl (Error (S ''Invalid UPI parameters: pa: invalid format. Valid VPA format (user@psp)'')) \<and>
   normalizedParams (validateUpiParams [(S ''pa'', Some (S ''a.b'')), (S ''pn'', Some (S ''x''))]) =
     [(S ''pn'', Some (S ''x''))]"
proof -
  let ?p = "[(S ''pa'', Some (S ''a.b'')), (S ''pn'', Some (S ''x''))]"
  have v: "validateUpiParams ?p =
    \<lparr>isValid = False, errors = [S ''pa: invalid format. Valid VPA format (user@psp)''],
     normalizedParams = [(S ''pn'', Some (S ''x''))]\<rparr>"
    by (simp add: ev)
  from C6_buildUpiUri_raises_iff_invalid [of ?p Pay] show ?thesis
    unfolding v by (simp add: S_def unit_of_def)
qed

lemma protocol_new_URL:
  assumes "new_URL u = Url parsed"
  shows "\<exists>scheme rest. parse_scheme (url_input u) = Some (scheme, rest) \<and>
                       protocol parsed = scheme @ S '':''"
proof (cases "parse_scheme (url_input u)")
  case None
  with assms show ?thesis by (simp add: new_URL_def)
next
  case (Some sr)
  obtain scheme rest where sr: "sr = (scheme, rest)" by (cases sr)
  from assms Some sr have "protocol parsed = scheme @ S '':''"
    by (auto simp: new_URL_def Let_def split: host_outcome.splits)
  with Some sr show ?thesis by simp
qed

lemma upi_colon: "scheme @ S '':'' = S ''upi:'' \<longleftrightarrow> scheme = S ''upi''"
proof -
  have "S ''upi:'' = S ''upi'' @ S '':''" by (simp add: S_def)
  then show ?thesis by simp
qed

lemma parseUpiUri_Inr:
  "parseUpiUri u = Inr (a, ps) \<longleftrightarrow>
     (\<exists>url. new_URL u = Url url \<and> protocol url = S ''upi:'' \<and> hostname url = action_text a \<and>
            isValid (validateUpiParams (collectParams (searchParams url))) \<and>
            ps = normalizedParams (validateUpiParams (collectParams (searchParams url))))"
proof (cases "new_URL u")
  case (Url url)
  show ?thesis
  proof (cases a)
    case Pay
    then show ?thesis using Url S_pay_neq_mandate
      by (auto simp: parseUpiUri_def Let_def)
  next
    case Mandate
    then show ?thesis using Url S_pay_neq_mandate
      by (auto simp: parseUpiUri_def Let_def)
  qed
next
  case UrlFailure
  then show ?thesis by (simp add: parseUpiUri_def)
next
  case UrlRejected
  then show ?thesis by (simp add: parseUpiUri_def)
qed

text \<open>
  C7. \<open>parseUpiUri\<close> returns a result exactly when the URL constructor accepts the
  string, the URL's protocol is \<^verbatim>\<open>upi:\<close>, its host name is \<^verbatim>\<open>pay\<close> or
  \<^verbatim>\<open>mandate\<close> (the action returned) and the decoded query parameters validate; the
  parameters returned are the normalized ones of that validation, not the decoded ones;
  and the scheme that the parser reads from the input is then \<open>upi\<close>. In every other
  case it raises: the \<^verbatim>\<open>TypeError\<close> of the constructor when the string is not a URL;
  for a URL of another scheme the error \<^verbatim>\<open>Invalid UPI URI: must start with upi://\<close>;
  for a \<open>upi\<close> URL with another host the error
  \<^verbatim>\<open>Invalid UPI action: must be "pay" or "mandate"\<close>; for parameters that do not
  validate the error \<^verbatim>\<open>Invalid UPI parameters: \<close> with the validation errors. The
  scheme is compared after the parser has lower-cased it, the host as it is written.
\<close>

theorem C7_parseUpiUri_result:
  "(parseUpiUri u = Inr (a, ps) \<longleftrightarrow>
      (\<exists>url. new_URL u = Url url \<and> protocol url = S ''upi:'' \<and> hostname url = action_text a \<and>
             isValid (validateUpiParams (collectParams (searchParams url))) \<and>
             ps = normalizedParams (validateUpiParams (collectParams (searchParams url))))) \<and>
   (parseUpiUri u = Inr (a, ps) \<longrightarrow>
      (\<exists>rest. parse_scheme (url_input u) = Some (S ''upi'', rest))) \<and>
   (new_URL u = UrlFailure \<longrightarrow> parseUpiUri u = Inl TypeError) \<and>
   (\<forall>url. new_URL u = Url url \<longrightarrow>
      (protocol url \<noteq> S ''upi:'' \<longrightarrow>
         parseUpiUri u = Inl (Error (S ''Invalid UPI URI: must start with upi://''))) \<and>
      (protocol url = S ''upi:'' \<and> hostname url \<noteq> S ''pay'' \<and> hostname url \<noteq> S ''mandate'' \<longrightarrow>
         parseUpiUri u =
           Inl (Error (S ''Invalid UPI action: must be '' @ [0x22] @ S ''pay'' @ [0x22] @
                       S '' or '' @ [0x22] @ S ''mandate'' @ [0x22]))) \<and>
      (protocol url = S ''upi:'' \<and> (hostname url = S ''pay'' \<or> hostname url = S ''mandate'') \<and>
       \<not> isValid (validateUpiParams (collectParams (searchParams url))) \<longrightarrow>
         parseUpiUri u =
           Inl (Error (S ''Invalid UPI parameters: '' @
                       join (S '', '')
                         (errors (validateUpiParams (collectParams (searchParams url))))))))"
proof (intro conjI allI impI)
  show "parseUpiUri u = Inr (a, ps) \<longleftrightarrow>
      (\<exists>url. new_URL u = Url url \<and> protocol url = S ''upi:'' \<and> hostname url = action_text a \<and>
             isValid (validateUpiParams (collectParams (searchParams url))) \<and>
             ps = normalizedParams (validateUpiParams (collectParams (searchParams url))))"
    by (rule parseUpiUri_Inr)
next
  assume "parseUpiUri u = Inr (a, ps)"
  then obtain url where url: "new_URL u = Url url" "protocol url = S ''upi:''"
    unfolding parseUpiUri_Inr by blast
  from protocol_new_URL [OF url(1)] obtain scheme rest where
    sr: "parse_scheme (url_input u) = Some (scheme, rest)" "protocol url = scheme @ S '':''"
    by blast
  from sr(2) url(2) have "scheme @ S '':'' = S ''upi:''" by simp
  then have "scheme = S ''upi''" by (simp only: upi_colon)
  with sr(1) show "\<exists>rest. parse_scheme (url_input u) = Some (S ''upi'', rest)" by blast
next
  assume "new_URL u = UrlFailure"
  then show "parseUpiUri u = Inl TypeError" by (simp add: parseUpiUri_def)
next
  fix url assume "new_URL u = Url url" "protocol url \<noteq> S ''upi:''"
  then show "parseUpiUri u = Inl (Error (S ''Invalid UPI URI: must start with upi://''))"
    by (simp add: parseUpiUri_def)
next
  fix url
  assume "new_URL u = Url url"
    "protocol url = S ''upi:'' \<and> hostname url \<noteq> S ''pay'' \<and> hostname url \<noteq> S ''mandate''"
  then show "parseUpiUri u =
           Inl (Error (S ''Invalid UPI action: must be '' @ [0x22] @ S ''pay'' @ [0x22] @
                       S '' or '' @ [0x22] @ S ''mandate'' @ [0x22]))"
    by (simp add: parseUpiUri_def)
next
  fix url
  assume "new_URL u = Url url"
    "protocol url = S ''upi:'' \<and> (hostname url = S ''pay'' \<or> hostname url = S ''mandate'') \<and>
       \<not> isValid (validateUpiParams (collectParams (searchParams url)))"
  then show "parseUpiUri u =
           Inl (Error (S ''Invalid UPI parameters: '' @
                       join (S '', '')
                         (errors (validateUpiParams (collectParams (searchParams url))))))"
    by (auto simp: parseUpiUri_def Let_def)
qed

theorem C7_parseUpiUri_result_witness:
  "parseUpiUri (S ''upi://pay?pa=a%40b&pn=+x&am=1&__proto__=z'') =
     Inr (Pay, [(S ''pa'', Some (S ''a@b'')), (S ''pn'', Some (S ''x'')), (S ''am'', Some (S ''1'')),
                (S ''cu'', Some (S ''INR''))]) \<and>
   new_URL (S ''upi://pay?pa=a%40b&pn=+x&am=1&__proto__=z'') =
     Url \<lparr>protocol = S ''upi:'', hostname = S ''pay'',
          searchParams = [(S ''pa'', S ''a@b''), (S ''pn'', S '' x''), (S ''am'', S ''1''),
                          (S ''__proto__'', S ''z'')]\<rparr> \<and>
   parse_scheme (url_input (S ''upi://pay?pa=a%40b&pn=+x&am=1&__proto__=z'')) =
     Some (S ''upi'', map unat (S ''//pay?pa=a%40b&pn=+x&am=1&__proto__=z'')) \<and>
   new_URL (S ''http://example.com/pay?pa=test@upi'') =
     Url \<lparr>protocol = S ''http:'', hostname = S ''example.com'',
          searchParams = [(S ''pa'', S ''test@upi'')]\<rparr> \<and>
   parseUpiUri (S ''http://example.com/pay?pa=test@upi'') =
     Inl (Error (S ''Invalid UPI URI: must start with upi://'')) \<and>
   parseUpiUri (S ''upi://invalid?pa=test@upi&pn=Test'') =
     Inl (Error (S ''Invalid UPI action: must be '' @ [0x22] @ S ''pay'' @ [0x22] @
                 S '' or '' @ [0x22] @ S ''mandate'' @ [0x22])) \<and>
   parseUpiUri (S ''upi://pay?pa=a.b&pn=x'') =
     Inl (Error (S ''Invalid UPI parameters: pa: invalid format. Valid VPA format (user@psp)'')) \<and>
   parseUpiUri (S ''pay?pa=a@b&pn=x'') = Inl TypeError"
proof -
  let ?u1 = "S ''upi://pay?pa=a%40b&pn=+x&am=1&__proto__=z''"
  let ?url1 = "\<lparr>protocol = S ''upi:'', hostname = S ''pay'',
       searchParams = [(S ''pa'', S ''a@b''), (S ''pn'', S '' x''), (S ''am'', S ''1''),
                       (S ''__proto__'', S ''z'')]\<rparr>"
  let ?ps1 = "[(S ''pa'', Some (S ''a@b'')), (S ''pn'', Some (S ''x'')), (S ''am'', Some (S ''1'')),
               (S ''cu'', Some (S ''INR''))]"
  have u1: "new_URL ?u1 = Url ?url1"
    by (simp add: ev ev_url)
  have c1: "collectParams [(S ''pa'', S ''a@b''), (S ''pn'', S '' x''), (S ''am'', S ''1''),
                           (S ''__proto__'', S ''z'')] =
     [(S ''pa'', Some (S ''a@b'')), (S ''pn'', Some (S '' x'')), (S ''am'', Some (S ''1''))]"
    by (simp add: collectParams_def obj_set_def S_def unit_of_def)
  have v1: "validateUpiParams
     [(S ''pa'', Some (S ''a@b'')), (S ''pn'', Some (S '' x'')), (S ''am'', Some (S ''1''))] =
     \<lparr>isValid = True, errors = [], normalizedParams = ?ps1\<rparr>"
    by (simp add: ev)
  have "\<exists>url. new_URL ?u1 = Url url \<and> protocol url = S ''upi:'' \<and>
          hostname url = action_text Pay \<and>
          isValid (validateUpiParams (collectParams (searchParams url))) \<and>
          ?ps1 = normalizedParams (validateUpiParams (collectParams (searchParams url)))"
    by (rule exI [of _ ?url1]) (simp add: u1 c1 v1)
  with C7_parseUpiUri_result [of ?u1 Pay ?ps1]
  have r1: "parseUpiUri ?u1 = Inr (Pay, ?ps1)" by blast
  with C7_parseUpiUri_result [of ?u1 Pay ?ps1]
  obtain rest where "parse_scheme (url_input ?u1) = Some (S ''upi'', rest)" by blast
  moreover have "parse_scheme (url_input ?u1) =
      Some (S ''upi'', map unat (S ''//pay?pa=a%40b&pn=+x&am=1&__proto__=z''))"
    by (simp add: ev ev_url)
  ultimately have s1: "parse_scheme (url_input ?u1) =
      Some (S ''upi'', map unat (S ''//pay?pa=a%40b&pn=+x&am=1&__proto__=z''))" by simp
  let ?u2 = "S ''http://example.com/pay?pa=test@upi''"
  let ?url2 = "\<lparr>protocol = S ''http:'', hostname = S ''example.com'',
          searchParams = [(S ''pa'', S ''test@upi'')]\<rparr>"
  have u2: "new_URL ?u2 = Url ?url2"
    by (simp add: ev ev_url ev_host)
  have p2: "protocol ?url2 \<noteq> S ''upi:''" by (simp add: S_def unit_of_def)
  from C7_parseUpiUri_result [of ?u2 Pay "[]"] u2 p2
  have r2: "parseUpiUri ?u2 = Inl (Error (S ''Invalid UPI URI: must start with upi://''))"
    by blast
  let ?u3 = "S ''upi://invalid?pa=test@upi&pn=Test''"
  let ?url3 = "\<lparr>protocol = S ''upi:'', hostname = S ''invalid'',
          searchParams = [(S ''pa'', S ''test@upi''), (S ''pn'', S ''Test'')]\<rparr>"
  have u3: "new_URL ?u3 = Url ?url3"
    by (simp add: ev ev_url)
  have p3: "protocol ?url3 = S ''upi:'' \<and> hostname ?url3 \<noteq> S ''pay'' \<and>
            hostname ?url3 \<noteq> S ''mandate''"
    by (simp add: S_def unit_of_def)
  from C7_parseUpiUri_result [of ?u3 Pay "[]"] u3 p3
  have r3: "parseUpiUri ?u3 =
     Inl (Error (S ''Invalid UPI action: must be '' @ [0x22] @ S ''pay'' @ [0x22] @
                 S '' or '' @ [0x22] @ S ''mandate'' @ [0x22]))"
    by blast
  let ?u4 = "S ''upi://pay?pa=a.b&pn=x''"
  let ?url4 = "\<lparr>protocol = S ''upi:'', hostname = S ''pay'',
          searchParams = [(S ''pa'', S ''a.b''), (S ''pn'', S ''x'')]\<rparr>"
  have u4: "new_URL ?u4 = Url ?url4"
    by (simp add: ev ev_url)
  have v4: "validateUpiParams (collectParams [(S ''pa'', S ''a.b''), (S ''pn'', S ''x'')]) =
     \<lparr>isValid = False, errors = [S ''pa: invalid format. Valid VPA format (user@psp)''],
      normalizedParams = [(S ''pn'', Some (S ''x''))]\<rparr>"
    by (simp add: ev collectParams_def)
  have p4: "protocol ?url4 = S ''upi:'' \<and>
            (hostname ?url4 = S ''pay'' \<or> hostname ?url4 = S ''mandate'') \<and>
            \<not> isValid (validateUpiParams (collectParams (searchParams ?url4)))"
    by (simp add: v4)
  from C7_parseUpiUri_result [of ?u4 Pay "[]"] u4 p4
  have "parseUpiUri ?u4 =
     Inl (Error (S ''Invalid UPI parameters: '' @
                 join (S '', '')
                   (errors (validateUpiParams (collectParams (searchParams ?url4))))))"
    by blast
  moreover have "errors (validateUpiParams (collectParams (searchParams ?url4))) =
      [S ''pa: invalid format. Valid VPA format (user@psp)'']"
    by (simp add: v4)
  ultimately have r4: "parseUpiUri ?u4 =
     Inl (Error (S ''Invalid UPI parameters: pa: invalid format. Valid VPA format (user@psp)''))"
    by (simp add: S_def)
  have u5: "new_URL (S ''pay?pa=a@b&pn=x'') = UrlFailure"
    by (simp add: ev ev_url)
  with C7_parseUpiUri_result [of "S ''pay?pa=a@b&pn=x''" Pay "[]"]
  have r5: "parseUpiUri (S ''pay?pa=a@b&pn=x'') = Inl TypeError" by blast
  from r1 u1 s1 u2 r2 r3 r4 r5 show ?thesis by (intro conjI)
qed

text \<open>
  C8: when \<open>buildAppLink\<close> returns a link. On Android the fallback is resolved only when
  \<open>includeFallback\<close> is not false (its default is true): it is the caller's
  \<open>fallbackUrl\<close> when given (not empty), else the registry's Android store URL. For an
  app with an Android package the URL is
  \<^verbatim>\<open>intent://<action>?<query>#Intent;scheme=upi;package=<package>\<close>, then
  \<^verbatim>\<open>;S.browser_fallback_url=\<close> and the percent-encoded fallback exactly when a
  fallback was resolved, then \<^verbatim>\<open>;end\<close>. On iOS the fallback is the caller's
  \<open>fallbackUrl\<close>, else the iOS store URL, whatever \<open>includeFallback\<close> says.
\<close>

theorem C8_intent_url_and_fallback:
  assumes "buildAppLink apps options = Inr r"
  shows "(platform options = Android \<longrightarrow>
            link_fallbackUrl r =
              (if includeFallback options = Some False then None
               else if truthy (fallbackUrl options) then fallbackUrl options
               else getStoreUrl apps (appId options) Android) \<and>
            (\<forall>a pkg. getApp apps (appId options) = Some a \<and> androidPackage a = Some pkg \<and>
                     pkg \<noteq> [] \<longrightarrow>
               (\<exists>baseUri q.
                  resolveBaseUri options (link_action r) = Inr baseUri \<and>
                  extractQueryFromUri baseUri = Inr q \<and>
                  (truthy (link_fallbackUrl r) \<longrightarrow>
                     encodeURIComponent (the (link_fallbackUrl r)) \<noteq> None) \<and>
                  url r =
                    S ''intent://'' @ action_text (link_action r) @ S ''?'' @ q @
                    S ''#Intent;scheme=upi;package='' @ pkg @
                    (if truthy (link_fallbackUrl r)
                     then S '';S.browser_fallback_url='' @
                          the (encodeURIComponent (the (link_fallbackUrl r)))
                     else []) @
                    S '';end''))) \<and>
         (platform options = Ios \<longrightarrow>
            link_fallbackUrl r =
              (if truthy (fallbackUrl options) then fallbackUrl options
               else getStoreUrl apps (appId options) Ios)) \<and>
         link_action r = (case action options of None \<Rightarrow> Pay | Some x \<Rightarrow> x)"
proof -
  obtain a baseUri q where
    a: "getApp apps (appId options) = Some a" and
    b: "resolveBaseUri options (case action options of None \<Rightarrow> Pay | Some x \<Rightarrow> x) = Inr baseUri" and
    q: "extractQueryFromUri baseUri = Inr q" and
    act: "link_action r = (case action options of None \<Rightarrow> Pay | Some x \<Rightarrow> x)" and
    "link_platform r = platform options" and
    "link_app r = \<lparr>info_id = appId options, info_label = label a, verified = (status a = Verified)\<rparr>" and
    android: "platform options = Android \<Longrightarrow>
       link_fallbackUrl r =
         (if includeFallback options = Some False then None
          else if truthy (fallbackUrl options) then fallbackUrl options
          else getStoreUrl apps (appId options) Android) \<and>
       buildAndroidIntentUrl apps (appId options) q (link_action r) (link_fallbackUrl r) = Inr (url r)" and
    ios: "platform options = Ios \<Longrightarrow>
       link_fallbackUrl r =
         (if truthy (fallbackUrl options) then fallbackUrl options
          else getStoreUrl apps (appId options) Ios) \<and>
       url r = buildIosSchemeUrl apps (appId options) q (link_action r)"
    by (rule buildAppLink_Inr [OF assms]) (rule that)
  show ?thesis
  proof (intro conjI impI allI)
    assume "platform options = Android"
    with android show "link_fallbackUrl r =
              (if includeFallback options = Some False then None
               else if truthy (fallbackUrl options) then fallbackUrl options
               else getStoreUrl apps (appId options) Android)" by blast
  next
    fix a' pkg
    assume p: "platform options = Android"
      and h: "getApp apps (appId options) = Some a' \<and> androidPackage a' = Some pkg \<and> pkg \<noteq> []"
    from android [OF p] have
      u: "buildAndroidIntentUrl apps (appId options) q (link_action r) (link_fallbackUrl r) = Inr (url r)"
      by blast
    from h have h1: "getApp apps (appId options) = Some a'" and h2: "androidPackage a' = Some pkg"
      and h3: "pkg \<noteq> []" by blast+
    note pk = buildAndroidIntentUrl_package [OF h1 h2 h3 u]
    show "\<exists>baseUri q.
                  resolveBaseUri options (link_action r) = Inr baseUri \<and>
                  extractQueryFromUri baseUri = Inr q \<and>
                  (truthy (link_fallbackUrl r) \<longrightarrow>
                     encodeURIComponent (the (link_fallbackUrl r)) \<noteq> None) \<and>
                  url r =
                    S ''intent://'' @ action_text (link_action r) @ S ''?'' @ q @
                    S ''#Intent;scheme=upi;package='' @ pkg @
                    (if truthy (link_fallbackUrl r)
                     then S '';S.browser_fallback_url='' @
                          the (encodeURIComponent (the (link_fallbackUrl r)))
                     else []) @
                    S '';end''"
      using b q pk act by (intro exI [of _ baseUri] exI [of _ q]) simp
  next
    assume "platform options = Ios"
    with ios show "link_fallbackUrl r =
              (if truthy (fallbackUrl options) then fallbackUrl options
               else getStoreUrl apps (appId options) Ios)" by blast
  next
    show "link_action r = (case action options of None \<Rightarrow> Pay | Some x \<Rightarrow> x)" by (rule act)
  qed
qed

theorem C8_intent_url_and_fallback_witness:
  "buildAppLink sampleApps sampleOptions = Inr sampleLink \<and>
   platform sampleOptions = Android \<and>
   link_fallbackUrl sampleLink =
     (if includeFallback sampleOptions = Some False then None
      else if truthy (fallbackUrl sampleOptions) then fallbackUrl sampleOptions
      else getStoreUrl sampleApps (appId sampleOptions) Android) \<and>
   link_action sampleLink = Pay"
proof -
  have p: "platform sampleOptions = Android" by (simp add: sampleOptions_def)
  have a: "(case action sampleOptions of None \<Rightarrow> Pay | Some x \<Rightarrow> x) = Pay"
    by (simp add: sampleOptions_def)
  note inst = C8_intent_url_and_fallback [OF link_ex]
  from inst p have "link_fallbackUrl sampleLink =
     (if includeFallback sampleOptions = Some False then None
      else if truthy (fallbackUrl sampleOptions) then fallbackUrl sampleOptions
      else getStoreUrl sampleApps (appId sampleOptions) Android)"
    by blast
  moreover from inst a have "link_action sampleLink = Pay" by simp
  ultimately show ?thesis using link_ex p by blast
qed

text \<open>
  C10: when \<open>upiUri\<close> is supplied (a string that is not empty, which is what the code
  tests), \<open>buildAppLink\<close> gives the same result with and without \<open>upiParams\<close>; the
  error for missing arguments is raised exactly when \<open>upiUri\<close> is absent (or empty) and
  \<open>upiParams\<close> is absent.
\<close>

theorem C10_upiUri_takes_precedence:
  "(truthy (upiUri options) \<longrightarrow>
      buildAppLink apps options = buildAppLink apps (options\<lparr>upiParams := None\<rparr>)) \<and>
   (buildAppLink apps options = Inl (Error (S ''Either upiUri or upiParams must be provided''))
      \<longleftrightarrow> \<not> truthy (upiUri options) \<and> upiParams options = None)"
proof (intro conjI impI)
  assume t: "truthy (upiUri options)"
  define options' where "options' = options\<lparr>upiParams := None\<rparr>"
  have sel: "appId options' = appId options" "upiUri options' = upiUri options"
    "platform options' = platform options" "action options' = action options"
    "fallbackUrl options' = fallbackUrl options"
    "includeFallback options' = includeFallback options"
    by (simp_all add: options'_def)
  have base: "resolveBaseUri options' act = resolveBaseUri options act" for act
    using t by (simp add: resolveBaseUri_def sel)
  have "buildAppLink apps options' = buildAppLink apps options"
    unfolding buildAppLink_def sel base using t by simp
  then show "buildAppLink apps options = buildAppLink apps (options\<lparr>upiParams := None\<rparr>)"
    by (simp add: options'_def)
next
  show "buildAppLink apps options = Inl (Error (S ''Either upiUri or upiParams must be provided''))
      \<longleftrightarrow> \<not> truthy (upiUri options) \<and> upiParams options = None"
  proof (cases "\<not> truthy (upiUri options) \<and> upiParams options = None")
    case True
    then show ?thesis by (simp add: buildAppLink_def)
  next
    case False
    have "buildAppLink apps options \<noteq> Inl (Error (S ''Either upiUri or upiParams must be provided''))"
    proof (cases "getApp apps (appId options)")
      case None
      with False show ?thesis using msg_either_neq_unknown
        by (auto simp: buildAppLink_def)
    next
      case (Some a)
      show ?thesis
      proof (cases "resolveBaseUri options (case action options of None \<Rightarrow> Pay | Some a \<Rightarrow> a)")
        case (Inl e)
        with False have "e \<noteq> Error (S ''Either upiUri or upiParams must be provided'')"
          using buildUpiUri_not_either
          by (auto simp: resolveBaseUri_def split: if_splits option.splits)
        with False Some Inl show ?thesis
          by (auto simp: buildAppLink_def)
      next
        case (Inr baseUri)
        with False Some show ?thesis
          using extractQuery_not_Error buildAndroid_not_Error
          by (auto simp: buildAppLink_def Let_def split: sum.splits)
      qed
    qed
    with False show ?thesis by blast
  qed
qed

theorem C10_upiUri_takes_precedence_witness:
  "truthy (upiUri sampleOptions) \<and> upiParams sampleOptions \<noteq> None \<and>
   buildAppLink sampleApps sampleOptions =
     buildAppLink sampleApps (sampleOptions\<lparr>upiParams := None\<rparr>) \<and>
   buildAppLink sampleApps sampleOptions = Inr sampleLink"
proof -
  have t: "truthy (upiUri sampleOptions)"
    by (simp add: sampleOptions_def truthy_def S_def)
  have n: "upiParams sampleOptions \<noteq> None" by (simp add: sampleOptions_def)
  from C10_upiUri_takes_precedence [of sampleOptions sampleApps] t
  have "buildAppLink sampleApps sampleOptions =
     buildAppLink sampleApps (sampleOptions\<lparr>upiParams := None\<rparr>)" by blast
  with t n link_ex show ?thesis by blast
qed

subsection \<open>Intent URL support\<close>

text \<open>
  C9, as stated: every user agent classified as iOS makes \<open>supportsIntentUrls\<close> false.
  The function never looks for the iOS tokens: a user agent that carries an iOS token,
  \<open>android\<close> and a Chrome token is classified as iOS by \<open>detectPlatform\<close> and still
  accepted by \<open>supportsIntentUrls\<close>.
\<close>

theorem C9_ios_android_chrome_counterexample:
  "detectPlatform (Some (S ''iPhone Android Chrome'')) = Ios \<and>
   supportsIntentUrls (Some (S ''iPhone Android Chrome''))"
  by (simp add: detectPlatform_def supportsIntentUrls_def iosPattern_def androidPattern_def
      chromePattern_def criosPattern_def toLowerCase_def lower_unit_def between_def
      S_def unit_of_def)

text \<open>
  C9, amended: \<open>supportsIntentUrls\<close> is false when no user agent is available, and false
  for every user agent whose lower-cased text does not contain \<open>android\<close>, whatever
  browser tokens it carries; so it is false for every user agent classified as iOS that
  does not also name Android.
\<close>

theorem C9_supportsIntentUrls_needs_android:
  "\<not> supportsIntentUrls None \<and>
   (\<not> contains (toLowerCase ua) (S ''android'') \<longrightarrow> \<not> supportsIntentUrls (Some ua))"
proof -
  have "regexp_test androidPattern (toLowerCase ua) \<longleftrightarrow> contains (toLowerCase ua) (S ''android'')"
    unfolding androidPattern_def by (rule search_literal)
  then show ?thesis
    by (simp add: supportsIntentUrls_def)
qed

theorem C9_supportsIntentUrls_needs_android_witness:
  "\<not> supportsIntentUrls None \<and>
   detectPlatform (Some (S ''iPhone CriOS'')) = Ios \<and>
   \<not> contains (toLowerCase (S ''iPhone CriOS'')) (S ''android'') \<and>
   \<not> supportsIntentUrls (Some (S ''iPhone CriOS''))"
proof -
  have a: "\<not> contains (toLowerCase (S ''iPhone CriOS'')) (S ''android'')"
    unfolding search_literal [symmetric]
    by (simp add: toLowerCase_def lower_unit_def between_def S_def unit_of_def)
  have b: "detectPlatform (Some (S ''iPhone CriOS'')) = Ios"
    by (simp add: detectPlatform_def iosPattern_def toLowerCase_def lower_unit_def
        between_def S_def unit_of_def)
  from a b C9_supportsIntentUrls_needs_android [of "S ''iPhone CriOS''"] show ?thesis
    by blast
qed

subsection \<open>Code points and UTF-8\<close>

lemma unat_unit_bound: "unat (c :: 16 word) < 65536"
  using unsigned_less [of c, where 'a = nat] by simp

lemma unat_of_nat_byte: "n < 256 \<Longrightarrow> unat (of_nat n :: 8 word) = n"
  by (simp add: unat_of_nat)

lemma surrogate_nat:
  "isSurrogate c \<longleftrightarrow> 0xD800 \<le> unat c \<and> unat c \<le> 0xDFFF"
  "isLead c \<longleftrightarrow> 0xD800 \<le> unat c \<and> unat c \<le> 0xDBFF"
  "isTrail c \<longleftrightarrow> 0xDC00 \<le> unat c \<and> unat c \<le> 0xDFFF"
  by (simp_all add: isSurrogate_def isLead_def isTrail_def between_def word_le_nat_alt)

lemma pair_value:
  assumes "0xD800 \<le> (x::nat)" "x \<le> 0xDBFF" "0xDC00 \<le> (y::nat)" "y \<le> 0xDFFF"
  shows "0x10000 \<le> 0x10000 + (x - 0xD800) * 0x400 + (y - 0xDC00)"
    and "0x10000 + (x - 0xD800) * 0x400 + (y - 0xDC00) < 0x110000"
    and "(0x10000 + (x - 0xD800) * 0x400 + (y - 0xDC00) - 0x10000) div 0x400 = x - 0xD800"
    and "(0x10000 + (x - 0xD800) * 0x400 + (y - 0xDC00) - 0x10000) mod 0x400 = y - 0xDC00"
proof -
  have e: "0x10000 + (x - 0xD800) * 0x400 + (y - 0xDC00) - 0x10000 =
           (x - 0xD800) * 0x400 + (y - 0xDC00)"
    by simp
  have lt: "y - 0xDC00 < 0x400" using assms by simp
  show "0x10000 \<le> 0x10000 + (x - 0xD800) * 0x400 + (y - 0xDC00)" by simp
  show "0x10000 + (x - 0xD800) * 0x400 + (y - 0xDC00) < 0x110000" using assms by simp
  show "(0x10000 + (x - 0xD800) * 0x400 + (y - 0xDC00) - 0x10000) div 0x400 = x - 0xD800"
    unfolding e using lt by simp
  show "(0x10000 + (x - 0xD800) * 0x400 + (y - 0xDC00) - 0x10000) mod 0x400 = y - 0xDC00"
    unfolding e using lt by simp
qed

lemma codePoints_scalar: "cp \<in> set (codePoints s) \<Longrightarrow> scalar cp"
proof (induction s rule: codePoints.induct)
  case 1
  then show ?case by simp
next
  case (2 c)
  then show ?case using unat_unit_bound [of c]
    by (auto simp: scalar_def surrogate_nat split: if_splits)
next
  case (3 c d r)
  show ?case
  proof (cases "isLead c \<and> isTrail d")
    case True
    with 3 consider "cp = 0x10000 + (unat c - 0xD800) * 0x400 + (unat d - 0xDC00)"
      | "cp \<in> set (codePoints r)" by auto
    then show ?thesis
    proof cases
      case 1
      from True have b: "0xD800 \<le> unat c" "unat c \<le> 0xDBFF" "0xDC00 \<le> unat d" "unat d \<le> 0xDFFF"
        by (simp_all add: surrogate_nat)
      from pair_value(1,2) [OF b] 1 show ?thesis by (simp add: scalar_def)
    next
      case 2
      with 3 True show ?thesis by simp
    qed
  next
    case False
    then have cps: "codePoints (c # d # r) =
        (if isSurrogate c then 0xFFFD else unat c) # codePoints (d # r)"
      by auto
    with 3 consider "cp = (if isSurrogate c then 0xFFFD else unat c)"
      | "cp \<in> set (codePoints (d # r))" by auto
    then show ?thesis
    proof cases
      case 1
      then show ?thesis using unat_unit_bound [of c]
        by (auto simp: scalar_def surrogate_nat split: if_splits)
    next
      case 2
      with 3 False show ?thesis by simp
    qed
  qed
qed

lemma fromCodePoints_Cons: "fromCodePoints (cp # cps) = fromCodePoint cp @ fromCodePoints cps"
  by (simp add: fromCodePoints_def)

lemma fromCodePoints_codePoints: "isWellFormed s \<Longrightarrow> fromCodePoints (codePoints s) = s"
proof (induction s rule: codePoints.induct)
  case 1
  then show ?case by (simp add: fromCodePoints_def)
next
  case (2 c)
  then show ?case using unat_unit_bound [of c]
    by (simp add: fromCodePoints_def fromCodePoint_def)
next
  case (3 c d r)
  show ?case
  proof (cases "isLead c \<and> isTrail d")
    case True
    then have b: "0xD800 \<le> unat c" "unat c \<le> 0xDBFF" "0xDC00 \<le> unat d" "unat d \<le> 0xDFFF"
      by (simp_all add: surrogate_nat)
    let ?cp = "0x10000 + (unat c - 0xD800) * 0x400 + (unat d - 0xDC00)"
    have "fromCodePoint ?cp =
            [of_nat (0xD800 + (unat c - 0xD800)), of_nat (0xDC00 + (unat d - 0xDC00))]"
      using pair_value [OF b] by (simp add: fromCodePoint_def)
    also have "\<dots> = [c, d]" using b by simp
    finally have f: "fromCodePoint ?cp = [c, d]" .
    from True have cps: "codePoints (c # d # r) = ?cp # codePoints r" by simp
    from True 3 have "fromCodePoints (codePoints r) = r" by simp
    with f show ?thesis unfolding cps by (simp add: fromCodePoints_Cons)
  next
    case False
    with 3 have ns: "\<not> isSurrogate c" and wf: "isWellFormed (d # r)" by auto
    from False ns have cps: "codePoints (c # d # r) = unat c # codePoints (d # r)" by auto
    have f: "fromCodePoint (unat c) = [c]" using unat_unit_bound [of c]
      by (simp add: fromCodePoint_def)
    from False wf 3 have "fromCodePoints (codePoints (d # r)) = d # r" by simp
    with f show ?thesis unfolding cps by (simp add: fromCodePoints_Cons)
  qed
qed

lemma strip_lead:
  "x < 32 \<Longrightarrow> (192 + x) mod 32 = (x::nat)"
  "x < 16 \<Longrightarrow> (224 + x) mod 16 = (x::nat)"
  "x < 8 \<Longrightarrow> (240 + x) mod 8 = (x::nat)"
  "x < 64 \<Longrightarrow> (128 + x) mod 64 = (x::nat)"
  using mod_mult_self4 [of 32 6 x] mod_mult_self4 [of 16 14 x] mod_mult_self4 [of 8 30 x]
    mod_mult_self4 [of 64 2 x]
  by simp_all

lemma sextets2:
  obtains a b where "(cp::nat) = a * 64 + b" "b < 64" "cp div 64 = a" "cp mod 64 = b"
  by (rule that [of "cp div 64" "cp mod 64"]) simp_all

lemma sextets3:
  obtains a b c where "(cp::nat) = (a * 64 + b) * 64 + c" "b < 64" "c < 64"
    "cp div 4096 = a" "cp div 64 mod 64 = b" "cp mod 64 = c"
proof (rule that [of "cp div 64 div 64" "cp div 64 mod 64" "cp mod 64"])
  show "cp div 4096 = cp div 64 div 64"
    using div_mult2_eq [of cp 64 64] by simp
qed simp_all

lemma sextets4:
  obtains a b c d where "(cp::nat) = ((a * 64 + b) * 64 + c) * 64 + d" "b < 64" "c < 64" "d < 64"
    "cp div 262144 = a" "cp div 4096 mod 64 = b" "cp div 64 mod 64 = c" "cp mod 64 = d"
proof (rule that [of "cp div 64 div 64 div 64" "cp div 64 div 64 mod 64" "cp div 64 mod 64"
      "cp mod 64"])
  have e: "cp div 4096 = cp div 64 div 64"
    using div_mult2_eq [of cp 64 64] by simp
  show "cp div 262144 = cp div 64 div 64 div 64"
    using div_mult2_eq [of cp 4096 64] e by simp
  show "cp div 4096 mod 64 = cp div 64 div 64 mod 64" using e by simp
qed simp_all

lemma utf8_decode_encode_cp:
  assumes "scalar cp"
  shows "dec0 (utf8_encode_cp cp @ bs) = cp # dec0 bs"
proof -
  consider "cp < 0x80" | "0x80 \<le> cp" "cp < 0x800" | "0x800 \<le> cp" "cp < 0x10000"
    | "0x10000 \<le> cp" by linarith
  then show ?thesis
  proof cases
    case 1
    then show ?thesis
      by (simp add: utf8_encode_cp_def unat_of_nat_byte)
  next
    case 2
    obtain a b where d: "cp = a * 64 + b" "b < 64" "cp div 64 = a" "cp mod 64 = b"
      by (rule sextets2)
    from 2 d have a: "2 \<le> a" "a < 32" by simp_all
    define b1 :: byte where "b1 = of_nat (0xC0 + cp div 0x40)"
    define b2 :: byte where "b2 = of_nat (0x80 + cp mod 0x40)"
    have enc: "utf8_encode_cp cp = [b1, b2]"
      using 2 by (simp add: utf8_encode_cp_def b1_def b2_def)
    have u: "unat b1 = 0xC0 + a" "unat b2 = 0x80 + b"
      unfolding b1_def b2_def d(3,4)
      using a d(2) unat_of_nat_byte [of "0xC0 + a"] unat_of_nat_byte [of "0x80 + b"]
      by simp_all
    show ?thesis
      unfolding enc using a d(2) strip_lead(1) [of a] strip_lead(4) [of b]
      by (simp add: u Let_def d(1))
  next
    case 3
    obtain a b c where d: "cp = (a * 64 + b) * 64 + c" "b < 64" "c < 64"
      "cp div 4096 = a" "cp div 64 mod 64 = b" "cp mod 64 = c"
      by (rule sextets3)
    from 3 d(1,2,3) have a: "a < 16" by simp
    have lo: "a = 0 \<longrightarrow> 32 \<le> b"
    proof
      assume "a = 0"
      with 3 d(1,2,3) show "32 \<le> b" by simp
    qed
    have hi: "a = 13 \<longrightarrow> b < 32"
    proof
      assume "a = 13"
      with assms 3 d(1,2,3) show "b < 32" by (simp add: scalar_def)
    qed
    define b1 :: byte where "b1 = of_nat (0xE0 + cp div 0x1000)"
    define b2 :: byte where "b2 = of_nat (0x80 + cp div 0x40 mod 0x40)"
    define b3 :: byte where "b3 = of_nat (0x80 + cp mod 0x40)"
    have enc: "utf8_encode_cp cp = [b1, b2, b3]"
      using 3 by (simp add: utf8_encode_cp_def b1_def b2_def b3_def)
    have u: "unat b1 = 0xE0 + a" "unat b2 = 0x80 + b" "unat b3 = 0x80 + c"
      unfolding b1_def b2_def b3_def d(4,5,6)
      using a d(2,3) unat_of_nat_byte [of "0xE0 + a"] unat_of_nat_byte [of "0x80 + b"]
        unat_of_nat_byte [of "0x80 + c"]
      by simp_all
    show ?thesis
      unfolding enc
      using a d(2,3) lo hi strip_lead(2) [of a] strip_lead(4) [of b] strip_lead(4) [of c]
      by (auto simp: u Let_def d(1))
  next
    case 4
    obtain a b c e where d: "cp = ((a * 64 + b) * 64 + c) * 64 + e" "b < 64" "c < 64" "e < 64"
      "cp div 262144 = a" "cp div 4096 mod 64 = b" "cp div 64 mod 64 = c" "cp mod 64 = e"
      by (rule sextets4)
    from assms have lt: "cp < 0x110000" by (simp add: scalar_def)
    from lt d(1,2,3,4) have a: "a < 5" by simp
    have lo: "a = 0 \<longrightarrow> 16 \<le> b"
    proof
      assume "a = 0"
      with 4 d(1,2,3,4) show "16 \<le> b" by simp
    qed
    have hi: "a = 4 \<longrightarrow> b < 16"
    proof
      assume "a = 4"
      with lt d(1,2,3,4) show "b < 16" by simp
    qed
    define b1 :: byte where "b1 = of_nat (0xF0 + cp div 0x40000)"
    define b2 :: byte where "b2 = of_nat (0x80 + cp div 0x1000 mod 0x40)"
    define b3 :: byte where "b3 = of_nat (0x80 + cp div 0x40 mod 0x40)"
    define b4 :: byte where "b4 = of_nat (0x80 + cp mod 0x40)"
    have enc: "utf8_encode_cp cp = [b1, b2, b3, b4]"
      using 4 by (simp add: utf8_encode_cp_def b1_def b2_def b3_def b4_def)
    have u: "unat b1 = 0xF0 + a" "unat b2 = 0x80 + b" "unat b3 = 0x80 + c" "unat b4 = 0x80 + e"
      unfolding b1_def b2_def b3_def b4_def d(5,6,7,8)
      using a d(2,3,4) unat_of_nat_byte [of "0xF0 + a"] unat_of_nat_byte [of "0x80 + b"]
        unat_of_nat_byte [of "0x80 + c"] unat_of_nat_byte [of "0x80 + e"]
      by simp_all
    show ?thesis
      unfolding enc
      using a d(2,3,4) lo hi strip_lead(3) [of a] strip_lead(4) [of b] strip_lead(4) [of c]
        strip_lead(4) [of e]
      by (auto simp: u Let_def d(1))
  qed
qed

lemma utf8_decode_encode:
  "\<forall>cp \<in> set cps. scalar cp \<Longrightarrow> utf8_decode (utf8_encode cps @ bs) = cps @ utf8_decode bs"
  by (induction cps) (simp_all add: utf8_decode_def utf8_encode_def utf8_decode_encode_cp)

subsection \<open>Percent-encoding and the form-urlencoded serializer and parser\<close>

lemma unat_byte_bound: "unat (b :: byte) < 256"
  using unsigned_less [of b, where 'a = nat] by simp

lemma unat_widen: "unat (ucast (b :: byte) :: 16 word) = unat b"
  using unat_byte_bound [of b] by (simp add: unsigned_ucast_eq take_bit_nat_eq_self)

lemma unat_narrow: "unat c < 256 \<Longrightarrow> unat (narrow c) = unat c"
  by (simp add: narrow_def unsigned_ucast_eq take_bit_nat_eq_self)

lemma narrow_widen: "narrow (ucast (b :: byte)) = b"
  using unat_narrow [of "ucast b"] unat_byte_bound [of b]
  by (simp add: word_unat_eq_iff unat_widen)

lemma narrow_of_nat: "n < 256 \<Longrightarrow> narrow (of_nat n) = of_nat n"
proof -
  assume n: "n < 256"
  then have "unat (of_nat n :: 16 word) = n" by (simp add: unat_of_nat)
  with n show ?thesis
    using unat_narrow [of "of_nat n"] by (simp add: word_unat_eq_iff unat_of_nat)
qed

lemma byte_eq_iff: "(b :: byte) = c \<longleftrightarrow> unat b = unat c"
  by (simp add: word_unat_eq_iff)

lemma unit_eq_iff: "(b :: 16 word) = c \<longleftrightarrow> unat b = unat c"
  by (simp add: word_unat_eq_iff)

lemma unat_hexDigit:
  "n < 16 \<Longrightarrow> unat (hexDigit n) = (if n < 10 then 0x30 + n else 0x41 + (n - 10))"
  using unat_of_nat [of "0x30 + n", where 'a = 16] unat_of_nat [of "0x37 + n", where 'a = 16]
  by (auto simp: hexDigit_def)

lemma hexVal_nat:
  "hexVal b =
     (if 0x30 \<le> unat b \<and> unat b \<le> 0x39 then Some (unat b - 0x30)
      else if 0x41 \<le> unat b \<and> unat b \<le> 0x46 then Some (unat b - 0x41 + 10)
      else if 0x61 \<le> unat b \<and> unat b \<le> 0x66 then Some (unat b - 0x61 + 10)
      else None)"
  by (simp add: hexVal_def word_le_nat_alt)

lemma unat_narrow_hexDigit:
  "n < 16 \<Longrightarrow> unat (narrow (hexDigit n)) = (if n < 10 then 0x30 + n else 0x41 + (n - 10))"
  using unat_narrow [of "hexDigit n"] by (simp add: unat_hexDigit)

lemma hexVal_hexDigit: "n < 16 \<Longrightarrow> hexVal (narrow (hexDigit n)) = Some n"
  by (simp add: hexVal_nat unat_narrow_hexDigit)

lemma safe_hexDigit: "n < 16 \<Longrightarrow> safe_unit (hexDigit n)"
  by (simp add: safe_unit_def unat_hexDigit)

lemma alnum_byte_nat:
  "isAlnumByte b \<longleftrightarrow>
     (0x30 \<le> unat b \<and> unat b \<le> 0x39) \<or> (0x41 \<le> unat b \<and> unat b \<le> 0x5A) \<or>
     (0x61 \<le> unat b \<and> unat b \<le> 0x7A)"
  by (simp add: isAlnumByte_def word_le_nat_alt)

lemma byte_div_mod: "unat (b :: byte) div 16 < 16" "unat (b :: byte) mod 16 < 16"
  using unat_byte_bound [of b] by simp_all

lemma safe_urlencodedByte: "c \<in> set (urlencodedByte b) \<Longrightarrow> safe_unit c"
proof -
  assume c: "c \<in> set (urlencodedByte b)"
  consider "b = 0x20" | "b \<noteq> 0x20" "isAlnumByte b \<or> b = 0x2A \<or> b = 0x2D \<or> b = 0x2E \<or> b = 0x5F"
    | "b \<noteq> 0x20" "\<not> (isAlnumByte b \<or> b = 0x2A \<or> b = 0x2D \<or> b = 0x2E \<or> b = 0x5F)"
    by blast
  then show ?thesis
  proof cases
    case 1
    with c show ?thesis by (simp add: urlencodedByte_def safe_unit_def)
  next
    case 2
    with c have "c = ucast b" by (simp add: urlencodedByte_def)
    with 2 show ?thesis
      by (auto simp: safe_unit_def unat_widen alnum_byte_nat)
  next
    case 3
    with c have "c = 0x25 \<or> c = hexDigit (unat b div 16) \<or> c = hexDigit (unat b mod 16)"
      by (simp add: urlencodedByte_def percentEncodeByte_def)
    then show ?thesis
      using safe_hexDigit [OF byte_div_mod(1) [of b]] safe_hexDigit [OF byte_div_mod(2) [of b]]
      by (auto simp: safe_unit_def)
  qed
qed

lemma safe_unit_facts:
  assumes "safe_unit c"
  shows "unat c < 0x80" "narrow c \<noteq> 0x26" "narrow c \<noteq> 0x3D" "unat c \<noteq> 0x23"
    "unat c \<noteq> 0x3F" "0x20 < unat c" "\<not> isSurrogate c"
proof -
  from assms show u: "unat c < 0x80" by (auto simp: safe_unit_def Let_def)
  then have n: "unat (narrow c) = unat c" by (simp add: unat_narrow)
  from assms show "narrow c \<noteq> 0x26" "narrow c \<noteq> 0x3D"
    unfolding byte_eq_iff n by (auto simp: safe_unit_def Let_def)
  from assms show "unat c \<noteq> 0x23" "unat c \<noteq> 0x3F" "0x20 < unat c"
    by (auto simp: safe_unit_def Let_def)
  from u show "\<not> isSurrogate c" by (simp add: surrogate_nat)
qed

text \<open>Strings of units below 0x80.\<close>

lemma codePoints_ascii: "\<forall>c \<in> set s. unat c < 0x80 \<Longrightarrow> codePoints s = map unat s"
proof (induction s rule: codePoints.induct)
  case 1
  then show ?case by simp
next
  case (2 c)
  then show ?case by (simp add: surrogate_nat)
next
  case (3 c d r)
  then have "\<not> isLead c" "\<not> isSurrogate c" by (simp_all add: surrogate_nat)
  with 3 show ?case by simp
qed

lemma utf8_encode_ascii:
  "\<forall>c \<in> set s. unat c < 0x80 \<Longrightarrow> utf8_encode (map unat s) = map narrow s"
  by (induction s) (simp_all add: utf8_encode_def utf8_encode_cp_def narrow_def)

lemma toBytes_ascii: "\<forall>c \<in> set s. unat c < 0x80 \<Longrightarrow> toBytes s = map narrow s"
  by (simp add: toBytes_def codePoints_ascii utf8_encode_ascii)

text \<open>Decoding one encoded byte.\<close>

lemma narrow_numeral: "narrow 0x25 = 0x25" "narrow 0x2B = 0x2B"
  by (simp_all add: narrow_def)

lemma byte_recompose: "(of_nat (16 * (unat (b :: byte) div 16) + unat b mod 16) :: byte) = b"
  by simp

lemma narrow_hexDigit_not_plus: "n < 16 \<Longrightarrow> narrow (hexDigit n) \<noteq> 0x2B"
  unfolding byte_eq_iff by (simp add: unat_narrow_hexDigit)

lemma decode_encoded_byte:
  "percent_decode (map plusToSpace (map narrow (urlencodedByte b)) @ r) = b # percent_decode r"
proof -
  consider "b = 0x20" | "b \<noteq> 0x20" "isAlnumByte b \<or> b = 0x2A \<or> b = 0x2D \<or> b = 0x2E \<or> b = 0x5F"
    | "b \<noteq> 0x20" "\<not> (isAlnumByte b \<or> b = 0x2A \<or> b = 0x2D \<or> b = 0x2E \<or> b = 0x5F)"
    by blast
  then show ?thesis
  proof cases
    case 1
    then show ?thesis by (simp add: urlencodedByte_def plusToSpace_def narrow_numeral)
  next
    case 2
    then have e: "urlencodedByte b = [ucast b]" by (simp add: urlencodedByte_def)
    from 2 have "b \<noteq> 0x2B" "b \<noteq> 0x25" by (auto simp: isAlnumByte_def)
    then show ?thesis by (simp add: e narrow_widen plusToSpace_def)
  next
    case 3
    let ?h = "narrow (hexDigit (unat b div 16))" and ?l = "narrow (hexDigit (unat b mod 16))"
    from 3 have e: "map narrow (urlencodedByte b) = [0x25, ?h, ?l]"
      by (simp add: urlencodedByte_def percentEncodeByte_def narrow_numeral)
    have p: "plusToSpace ?h = ?h" "plusToSpace ?l = ?l" "plusToSpace 0x25 = 0x25"
      using narrow_hexDigit_not_plus [OF byte_div_mod(1) [of b]]
        narrow_hexDigit_not_plus [OF byte_div_mod(2) [of b]]
      by (simp_all add: plusToSpace_def)
    have v: "hexVal ?h = Some (unat b div 16)" "hexVal ?l = Some (unat b mod 16)"
      by (simp_all add: hexVal_hexDigit byte_div_mod)
    show ?thesis
      unfolding e using byte_recompose [of b]
      by (simp add: p v)
  qed
qed

lemma decode_encoded_bytes:
  "percent_decode (map plusToSpace (map narrow (concat (map urlencodedByte bs)))) = bs"
proof (induction bs)
  case Nil
  then show ?case by simp
next
  case (Cons b bs)
  then show ?case using decode_encoded_byte [of b "map plusToSpace (map narrow (concat (map urlencodedByte bs)))"]
    by simp
qed

lemma safe_urlencoded: "c \<in> set (urlencoded s) \<Longrightarrow> safe_unit c"
  by (auto simp: urlencoded_def dest: safe_urlencodedByte)

lemma urldecoded_urlencoded: "urldecoded (map narrow (urlencoded s)) = usv s"
proof -
  have "percent_decode (map (\<lambda>b. if b = 0x2B then 0x20 else b) (map narrow (urlencoded s))) =
          utf8_encode (codePoints s)"
    using decode_encoded_bytes [of "utf8_encode (codePoints s)"]
    by (simp add: urlencoded_def plusToSpace_def [abs_def])
  moreover have "utf8_decode (utf8_encode (codePoints s)) = codePoints s"
    using utf8_decode_encode [of "codePoints s" "[]"] codePoints_scalar [of _ s]
    by (simp add: utf8_decode_def)
  ultimately show ?thesis by (simp add: urldecoded_def usv_def)
qed

lemma S_amp: "S ''&'' = [0x26]" and S_eq: "S ''='' = [0x3D]"
  by (simp_all add: S_def unit_of_def)

lemma narrow_amp_eq: "narrow 0x26 = 0x26" "narrow 0x3D = 0x3D"
  by (simp_all add: narrow_def)

lemma piece_eq: "(\<lambda>(name, value). urlencoded name @ S ''='' @ urlencoded value) = piece"
  by (auto simp: piece_def fun_eq_iff)

lemma toString_pieces: "URLSearchParams_toString ps = join (S ''&'') (map piece ps)"
  by (simp add: URLSearchParams_toString_def piece_eq)

lemma split_on_not_Nil: "split_on d xs \<noteq> []"
  by (induction xs) (auto split: list.splits)

lemma split_on_none: "d \<notin> set xs \<Longrightarrow> split_on d xs = [xs]"
  by (induction xs) (auto split: list.splits)

lemma split_on_append: "d \<notin> set a \<Longrightarrow> split_on d (a @ d # r) = a # split_on d r"
proof (induction a)
  case Nil
  then show ?case by simp
next
  case (Cons x a)
  then show ?case using split_on_not_Nil [of d r] by (auto split: list.splits)
qed

lemma split_join:
  assumes "xs \<noteq> []" "\<forall>x \<in> set xs. 0x26 \<notin> set (map narrow x)"
  shows "split_on 0x26 (map narrow (join (S ''&'') xs)) = map (map narrow) xs"
  using assms
proof (induction "S ''&''" xs rule: join.induct)
  case 1
  then show ?case by simp
next
  case (2 x)
  then show ?case by (simp add: split_on_none)
next
  case (3 x y ys)
  then have ih: "split_on 0x26 (map narrow (join (S ''&'') (y # ys))) = map (map narrow) (y # ys)"
    by simp
  from 3 have nx: "0x26 \<notin> set (map narrow x)" by simp
  have "map narrow (join (S ''&'') (x # y # ys)) =
          map narrow x @ 0x26 # map narrow (join (S ''&'') (y # ys))"
    by (simp add: S_amp narrow_amp_eq)
  then show ?case using split_on_append [OF nx] ih by simp
qed

lemma set_join: "c \<in> set (join sep xs) \<Longrightarrow> c \<in> set sep \<or> (\<exists>x \<in> set xs. c \<in> set x)"
  by (induction sep xs rule: join.induct) auto

lemma piece_units: "c \<in> set (piece nv) \<Longrightarrow> safe_unit c \<or> c = 0x3D"
  by (auto simp: piece_def S_eq dest: safe_urlencoded)

lemma toString_units: "c \<in> set (URLSearchParams_toString ps) \<Longrightarrow> query_unit c"
proof -
  assume "c \<in> set (URLSearchParams_toString ps)"
  then have "c \<in> set (S ''&'') \<or> (\<exists>x \<in> set (map piece ps). c \<in> set x)"
    unfolding toString_pieces by (rule set_join)
  then show ?thesis
    by (auto simp: query_unit_def S_amp dest: piece_units)
qed

lemma query_unit_ascii: "query_unit c \<Longrightarrow> unat c < 0x80"
  by (auto simp: query_unit_def dest: safe_unit_facts(1))

lemma no_amp_in_piece: "0x26 \<notin> set (map narrow (piece nv))"
proof
  assume "0x26 \<in> set (map narrow (piece nv))"
  then obtain c where c: "c \<in> set (piece nv)" "narrow c = 0x26" by auto
  from piece_units [OF c(1)] c(2) show False
    using safe_unit_facts(2) [of c] by (auto simp: narrow_def)
qed

lemma no_eq_in_urlencoded: "0x3D \<notin> set (map narrow (urlencoded s))"
proof
  assume "0x3D \<in> set (map narrow (urlencoded s))"
  then obtain c where c: "c \<in> set (urlencoded s)" "narrow c = 0x3D" by auto
  from safe_urlencoded [OF c(1)] c(2) show False
    using safe_unit_facts(3) [of c] by simp
qed

lemma narrow_piece:
  "map narrow (piece nv) = map narrow (urlencoded (fst nv)) @ 0x3D # map narrow (urlencoded (snd nv))"
  by (simp add: piece_def S_eq narrow_amp_eq)

lemma parse_piece:
  "urldecoded (takeWhile (\<lambda>b. b \<noteq> 0x3D) (map narrow (piece nv))) = usv (fst nv)"
  "urldecoded (drop 1 (dropWhile (\<lambda>b. b \<noteq> 0x3D) (map narrow (piece nv)))) = usv (snd nv)"
proof -
  let ?n = "map narrow (urlencoded (fst nv))" and ?v = "map narrow (urlencoded (snd nv))"
  have a: "b \<noteq> 0x3D" if "b \<in> set ?n" for b
    using that no_eq_in_urlencoded [of "fst nv"] by blast
  have "takeWhile (\<lambda>b. b \<noteq> 0x3D) (?n @ 0x3D # ?v) = ?n @ takeWhile (\<lambda>b. b \<noteq> 0x3D) (0x3D # ?v)"
    by (rule takeWhile_append2) (rule a)
  then have t: "takeWhile (\<lambda>b. b \<noteq> 0x3D) (?n @ 0x3D # ?v) = ?n" by simp
  have "dropWhile (\<lambda>b. b \<noteq> 0x3D) (?n @ 0x3D # ?v) = dropWhile (\<lambda>b. b \<noteq> 0x3D) (0x3D # ?v)"
    by (rule dropWhile_append2) (rule a)
  then have d: "dropWhile (\<lambda>b. b \<noteq> 0x3D) (?n @ 0x3D # ?v) = 0x3D # ?v" by simp
  show "urldecoded (takeWhile (\<lambda>b. b \<noteq> 0x3D) (map narrow (piece nv))) = usv (fst nv)"
    unfolding narrow_piece t by (rule urldecoded_urlencoded)
  show "urldecoded (drop 1 (dropWhile (\<lambda>b. b \<noteq> 0x3D) (map narrow (piece nv)))) = usv (snd nv)"
    unfolding narrow_piece d by (simp add: urldecoded_urlencoded)
qed

lemma urlencoded_parse_toString:
  "urlencoded_parse (toBytes (URLSearchParams_toString ps)) = map (\<lambda>nv. (usv (fst nv), usv (snd nv))) ps"
proof (cases "ps = []")
  case True
  then show ?thesis
    by (simp add: urlencoded_parse_def toBytes_def URLSearchParams_toString_def utf8_encode_def)
next
  case False
  have ascii: "\<forall>c \<in> set (URLSearchParams_toString ps). unat c < 0x80"
    using toString_units query_unit_ascii by blast
  have bytes: "toBytes (URLSearchParams_toString ps) =
                 map narrow (join (S ''&'') (map piece ps))"
    using toBytes_ascii [OF ascii] by (simp add: toString_pieces)
  have split: "split_on 0x26 (map narrow (join (S ''&'') (map piece ps))) =
                 map (map narrow) (map piece ps)"
    using False no_amp_in_piece by (intro split_join) auto
  have ne: "filter (\<lambda>bytes. bytes \<noteq> []) (map (map narrow) (map piece ps)) =
              map (map narrow) (map piece ps)"
    by (simp add: filter_id_conv narrow_piece)
  show ?thesis
    unfolding urlencoded_parse_def bytes split ne
    using parse_piece by (simp add: comp_def)
qed

subsection \<open>The URL constructor on a URI that buildUpiUri returns\<close>

lemma query_unit_nat:
  assumes "query_unit c"
  shows "unat c \<noteq> 0x23" "unat c \<noteq> 0x3F" "0x20 < unat c" "unat c < 0x80"
    "\<not> querySet (unat c)" "\<not> isTabOrNewline (unat c)" "\<not> isC0OrSpace (unat c)"
proof -
  from assms have "safe_unit c \<or> unat c = 0x26 \<or> unat c = 0x3D"
    by (auto simp: query_unit_def)
  then have f: "unat c \<noteq> 0x23 \<and> unat c \<noteq> 0x3F \<and> 0x20 < unat c \<and> unat c < 0x80 \<and>
      unat c \<noteq> 0x22 \<and> unat c \<noteq> 0x3C \<and> unat c \<noteq> 0x3E \<and> unat c \<le> 0x7E"
    by (auto simp: safe_unit_def Let_def)
  then show "unat c \<noteq> 0x23" "unat c \<noteq> 0x3F" "0x20 < unat c" "unat c < 0x80" by simp_all
  from f show "\<not> querySet (unat c)" by (simp add: querySet_def c0ControlSet_def)
  from f show "\<not> isTabOrNewline (unat c)" by (simp add: isTabOrNewline_def)
  from f show "\<not> isC0OrSpace (unat c)" by (simp add: isC0OrSpace_def)
qed

lemma utf8PercentEncode_plain:
  "\<forall>c \<in> set q. \<not> inSet (unat c) \<Longrightarrow> utf8PercentEncode inSet (map unat q) = q"
  by (induction q) (simp_all add: utf8PercentEncode_def)

lemma dropWhile_keep: "xs \<noteq> [] \<Longrightarrow> \<not> P (hd xs) \<Longrightarrow> dropWhile P xs = xs"
  by (cases xs) simp_all

lemma strip_nothing:
  assumes "xs \<noteq> []" "\<not> P (hd xs)" "\<not> P (last xs)"
  shows "rev (dropWhile P (rev (dropWhile P xs))) = xs"
proof -
  have 1: "dropWhile P xs = xs" using assms(1,2) by (rule dropWhile_keep)
  have "dropWhile P (rev xs) = rev xs"
    using assms(1,3) by (intro dropWhile_keep) (simp_all add: hd_rev)
  with 1 show ?thesis by simp
qed

lemma action_units:
  "map unat (action_text Pay) = [0x70, 0x61, 0x79]"
  "map unat (action_text Mandate) = [0x6D, 0x61, 0x6E, 0x64, 0x61, 0x74, 0x65]"
  by (simp_all add: S_def unit_of_def)

lemma upi_prefix_units: "map unat (S ''upi://'') = [0x75, 0x70, 0x69, 0x3A, 0x2F, 0x2F]"
  by (simp add: S_def unit_of_def)

lemma question_units: "map unat (S ''?'') = [0x3F]"
  by (simp add: S_def unit_of_def)

lemma host_of_action:
  "parse_authority False (map unat (action_text a)) = Host (action_text a)"
  by (cases a)
    (simp_all add: parse_authority_def parse_host_def forbiddenHostCodePoint_def
      utf8PercentEncode_def c0ControlSet_def S_def unit_of_def)

lemma upi_not_special: "S ''upi'' \<noteq> S ''file''" "S ''upi'' \<notin> set specialSchemes"
  by (simp_all add: specialSchemes_def S_def unit_of_def)

lemma scheme_of_built:
  "parse_scheme (0x75 # 0x70 # 0x69 # 0x3A # rest) = Some (S ''upi'', rest)"
  by (simp add: parse_scheme_def isSchemeChar_def isAsciiAlpha_def isAsciiDigit_def
      asciiLower_def S_def unit_of_def)

lemma new_URL_built:
  assumes "ps \<noteq> []"
  shows "new_URL (S ''upi://'' @ action_text a @ S ''?'' @ URLSearchParams_toString ps) =
           Url \<lparr>protocol = S ''upi:'', hostname = action_text a,
                searchParams = map (\<lambda>nv. (usv (fst nv), usv (snd nv))) ps\<rparr>"
proof -
  let ?q = "URLSearchParams_toString ps"
  let ?u = "S ''upi://'' @ action_text a @ S ''?'' @ ?q"
  let ?A = "map unat (action_text a)" and ?Q = "map unat ?q"
  have qu: "query_unit c" if "c \<in> set ?q" for c using that by (rule toString_units)
  have qne: "?q \<noteq> []"
  proof -
    from assms obtain p ps' where "ps = p # ps'" by (cases ps) auto
    then have "piece p \<in> set (map piece ps)" by simp
    moreover have "piece p \<noteq> []" by (simp add: piece_def S_eq)
    ultimately show ?thesis
      unfolding toString_pieces using \<open>ps = p # ps'\<close>
      by (cases ps') (simp_all add: S_amp)
  qed
  have A: "?A = [0x70, 0x61, 0x79] \<or> ?A = [0x6D, 0x61, 0x6E, 0x64, 0x61, 0x74, 0x65]"
    by (cases a) (simp_all add: S_def unit_of_def)
  have ascii: "\<forall>c \<in> set ?u. unat c < 0x80"
  proof
    fix c assume "c \<in> set ?u"
    then consider "c \<in> set (S ''upi://'')" | "c \<in> set (action_text a)" | "c \<in> set (S ''?'')"
      | "c \<in> set ?q" by auto
    then show "unat c < 0x80"
    proof cases
      case 1
      then show ?thesis by (auto simp: S_def unit_of_def)
    next
      case 2
      then show ?thesis by (cases a) (auto simp: S_def unit_of_def)
    next
      case 3
      then show ?thesis by (auto simp: S_def unit_of_def)
    next
      case 4
      then show ?thesis using qu query_unit_nat(4) by blast
    qed
  qed
  have cps: "codePoints ?u = 0x75 # 0x70 # 0x69 # 0x3A # 0x2F # 0x2F # ?A @ 0x3F # ?Q"
    using codePoints_ascii [OF ascii] by (simp add: upi_prefix_units question_units)
  let ?all = "0x75 # 0x70 # 0x69 # 0x3A # 0x2F # 0x2F # ?A @ 0x3F # ?Q"
  have lastQ: "last ?all = unat (last ?q)" using qne by (simp add: last_map)
  have "\<not> isC0OrSpace (last ?all)"
    unfolding lastQ using qu [of "last ?q"] qne query_unit_nat(7) by simp
  moreover have "\<not> isC0OrSpace (hd ?all)" by (simp add: isC0OrSpace_def)
  ultimately have strip: "rev (dropWhile isC0OrSpace (rev (dropWhile isC0OrSpace ?all))) = ?all"
    by (intro strip_nothing) simp_all
  have Qclean: "\<forall>n \<in> set ?Q. \<not> isTabOrNewline n \<and> n \<noteq> 0x23 \<and> n \<noteq> 0x3F"
    using qu query_unit_nat(1,2,6) by auto
  have clean: "filter (\<lambda>c. \<not> isTabOrNewline c) ?all = ?all"
    using A Qclean by (auto simp: filter_id_conv isTabOrNewline_def)
  have inp: "url_input ?u = ?all"
    unfolding url_input_def Let_def cps strip clean ..
  let ?rest = "0x2F # 0x2F # ?A @ 0x3F # ?Q"
  have scheme: "parse_scheme ?all = Some (S ''upi'', ?rest)" by (rule scheme_of_built)
  have frag: "takeWhile (\<lambda>c. c \<noteq> 0x23) ?rest = ?rest"
    using A Qclean by auto
  have hier: "takeWhile (\<lambda>c. c \<noteq> 0x3F) ?rest = 0x2F # 0x2F # ?A"
    using A by auto
  have raw: "drop 1 (dropWhile (\<lambda>c. c \<noteq> 0x3F) ?rest) = ?Q"
    using A by auto
  have enc: "utf8PercentEncode querySet ?Q = ?q"
    using qu query_unit_nat(5) by (intro utf8PercentEncode_plain) blast
  have auth: "takeWhile (\<lambda>c. c \<noteq> 0x2F) (drop 2 (0x2F # 0x2F # ?A)) = ?A"
    using A by auto
  have entries: "urlencoded_parse (utf8_encode (codePoints ?q)) =
                   map (\<lambda>nv. (usv (fst nv), usv (snd nv))) ps"
    using urlencoded_parse_toString [of ps] by (simp add: toBytes_def)
  have upi: "S ''upi'' @ S '':'' = S ''upi:''" by (simp add: S_def)
  have two: "take 2 (0x2F # 0x2F # ?A) = [0x2F, 0x2F]" by simp
  have host: "url_host (S ''upi'') (0x2F # 0x2F # ?A) = Host (action_text a)"
    unfolding url_host_def two auth host_of_action using upi_not_special by simp
  show ?thesis
    unfolding new_URL_def inp Let_def scheme option.case prod.case frag hier raw host upi
    using upi_not_special by (simp add: enc entries)
qed

subsection \<open>Invariants of the normalized parameters\<close>

lemma last_dropWhile: "dropWhile P xs \<noteq> [] \<Longrightarrow> last (dropWhile P xs) = last xs"
  by (induction xs) (auto split: if_splits)

lemma trim_idem: "trim (trim s) = trim s"
proof (cases "trim s = []")
  case True
  then show ?thesis by (simp add: trim_Nil)
next
  case False
  let ?a = "dropWhile isWhiteSpace s"
  let ?b = "dropWhile isWhiteSpace (rev ?a)"
  from False have b: "?b \<noteq> []" by (simp add: trim_def)
  have a: "?a \<noteq> []"
  proof
    assume "?a = []"
    then have "?b = []" by (simp only: rev.simps dropWhile.simps)
    with b show False ..
  qed
  have "last (trim s) = hd ?b" using b by (simp add: trim_def last_rev)
  moreover have "\<not> isWhiteSpace (hd ?b)" using b by (rule hd_dropWhile)
  ultimately have l: "\<not> isWhiteSpace (last (trim s))" by simp
  have "hd (trim s) = last ?b" using b by (simp add: trim_def hd_rev)
  also have "\<dots> = last (rev ?a)" using b by (rule last_dropWhile)
  also have "\<dots> = hd ?a" using a by (simp add: last_rev)
  finally have "hd (trim s) = hd ?a" .
  moreover have "\<not> isWhiteSpace (hd ?a)" using a by (rule hd_dropWhile)
  ultimately have h: "\<not> isWhiteSpace (hd (trim s))" by simp
  show ?thesis
    using strip_nothing [OF False h l] by (simp add: trim_def [of "trim s"])
qed

lemma spec_entry_value_trimmed:
  "spec_entry_value e = Some t \<Longrightarrow> \<exists>v. snd e = Some v \<and> t = trim v \<and> trim v \<noteq> []"
  by (auto simp: spec_entry_value_def split: option.splits if_splits)

lemma spec_entry_value_again:
  assumes "spec_entry_value (k, x) = Some t"
  shows "spec_entry_value (k, Some t) = Some t"
proof -
  from spec_entry_value_trimmed [OF assms] obtain v where
    v: "x = Some v" "t = trim v" "trim v \<noteq> []" by auto
  from assms v(1) have a: "spec_entry_value (k, Some v) = Some (trim v)"
    by (simp add: v(2))
  have "spec_entry_value (k, Some (trim v)) = Some (trim v)"
    using a v(3)
    by (auto simp: spec_entry_value_def trim_idem split: option.splits if_splits)
  then show ?thesis by (simp add: v(2))
qed

lemma settled_kept: "spec_entry_value e = Some t \<Longrightarrow> settled (fst e, Some t)"
  using spec_entry_value_again [of "fst e" "snd e" t] by (simp add: settled_def)

lemma settled_INR: "settled (S ''cu'', Some (S ''INR''))"
  by (simp add: settled_def ev)

lemma settled_value:
  assumes "settled (k, x)"
  obtains v where "x = Some v" "v \<noteq> []" "trim v = v" "spec_entry_value (k, Some v) = Some v"
proof -
  from assms obtain v where v: "x = Some v" "spec_entry_value (k, Some v) = Some v"
    by (auto simp: settled_def split: option.splits)
  from spec_entry_value_trimmed [OF v(2)] have "v = trim v" "trim v \<noteq> []" by auto
  with v show thesis by (intro that [of v]) auto
qed

lemma settled_no_errors: "settled e \<Longrightarrow> spec_entry_errors e = []"
  by (auto simp: settled_def spec_entry_errors_def spec_entry_value_def
      split: option.splits if_splits)

lemma set_obj_put: "set (obj_put ob k v) \<subseteq> insert (k, v) (set ob)"
  by (induction ob k v rule: obj_put.induct) auto

lemma set_obj_set: "set (obj_set ob k v) \<subseteq> insert (k, v) (set ob)"
  using set_obj_put [of ob k v] by (auto simp: obj_set_def)

lemma keys_obj_set_proto:
  "S ''__proto__'' \<notin> fst ` set ob \<Longrightarrow> S ''__proto__'' \<notin> fst ` set (obj_set ob k v)"
  by (auto simp: obj_set_def keys_obj_put)

lemma obj_put_new: "k \<notin> fst ` set ob \<Longrightarrow> obj_put ob k v = ob @ [(k, v)]"
  by (induction ob k v rule: obj_put.induct) auto

lemma keep_settled:
  assumes "\<forall>e \<in> set norm. settled e"
  shows "\<forall>e \<in> set (keep norm x). settled e"
proof (cases "spec_entry_value x")
  case None
  with assms show ?thesis by (simp add: keep_def)
next
  case (Some t)
  have "set (keep norm x) \<subseteq> insert (fst x, Some t) (set norm)"
    using Some set_obj_set by (simp add: keep_def)
  with assms settled_kept [OF Some] show ?thesis by auto
qed

lemma foldl_keep_settled:
  "\<forall>e \<in> set norm. settled e \<Longrightarrow> \<forall>e \<in> set (foldl keep norm xs). settled e"
proof (induction xs arbitrary: norm)
  case Nil
  then show ?case by simp
next
  case (Cons x xs)
  from Cons.prems have "\<forall>e \<in> set (keep norm x). settled e" by (rule keep_settled)
  then have "\<forall>e \<in> set (foldl keep (keep norm x) xs). settled e" by (rule Cons.IH)
  then show ?case by simp
qed

lemma keep_distinct: "distinct (map fst norm) \<Longrightarrow> distinct (map fst (keep norm x))"
  by (simp add: keep_def distinct_obj_set split: option.splits)

lemma foldl_keep_distinct:
  "distinct (map fst norm) \<Longrightarrow> distinct (map fst (foldl keep norm xs))"
proof (induction xs arbitrary: norm)
  case Nil
  then show ?case by simp
next
  case (Cons x xs)
  from Cons.prems have "distinct (map fst (keep norm x))" by (rule keep_distinct)
  then have "distinct (map fst (foldl keep (keep norm x) xs))" by (rule Cons.IH)
  then show ?case by simp
qed

lemma keep_no_proto:
  "S ''__proto__'' \<notin> fst ` set norm \<Longrightarrow> S ''__proto__'' \<notin> fst ` set (keep norm x)"
  by (simp add: keep_def keys_obj_set_proto split: option.splits)

lemma foldl_keep_no_proto:
  "S ''__proto__'' \<notin> fst ` set norm \<Longrightarrow> S ''__proto__'' \<notin> fst ` set (foldl keep norm xs)"
proof (induction xs arbitrary: norm)
  case Nil
  then show ?case by simp
next
  case (Cons x xs)
  from Cons.prems have "S ''__proto__'' \<notin> fst ` set (keep norm x)" by (rule keep_no_proto)
  then have "S ''__proto__'' \<notin> fst ` set (foldl keep (keep norm x) xs)" by (rule Cons.IH)
  then show ?case by simp
qed

text \<open>The three invariants of a normalized map.\<close>

lemma clean_Nil: "clean []"
  by (simp add: clean_def)

lemma clean_foldl_keep: "clean norm \<Longrightarrow> clean (foldl keep norm xs)"
  unfolding clean_def
  using foldl_keep_distinct foldl_keep_settled foldl_keep_no_proto by blast

lemma clean_set_cu: "clean norm \<Longrightarrow> clean (obj_set norm (S ''cu'') (Some (S ''INR'')))"
  unfolding clean_def
  using set_obj_set [of norm "S ''cu''" "Some (S ''INR'')"] settled_INR
  by (auto simp: distinct_obj_set keys_obj_set_proto)

lemma clean_normalized: "clean (normalizedParams (validateUpiParams p))"
  by (simp add: normalizedParams_validateUpiParams Let_def clean_set_cu clean_foldl_keep
      clean_Nil)

lemma clean_lookup:
  assumes "clean ob"
  shows "map_of ob k = Some x \<longleftrightarrow> (k, x) \<in> set ob"
  using assms by (auto simp: clean_def dest: map_of_SomeD)

lemma clean_value:
  assumes "clean ob" "(k, x) \<in> set ob"
  obtains v where "x = Some v" "v \<noteq> []" "trim v = v" "spec_entry_value (k, Some v) = Some v"
proof -
  from assms have "settled (k, x)" by (auto simp: clean_def)
  then show thesis by (rule settled_value) (rule that)
qed

lemma clean_obj_get:
  assumes "clean ob"
  shows "obj_get ob k = Some v \<longleftrightarrow> (k, Some v) \<in> set ob"
proof
  assume "obj_get ob k = Some v"
  then obtain x where x: "map_of ob k = Some x" "x = Some v"
    by (auto simp: obj_get_def split: option.splits)
  then show "(k, Some v) \<in> set ob" using clean_lookup [OF assms] by simp
next
  assume "(k, Some v) \<in> set ob"
  then have "map_of ob k = Some (Some v)" using clean_lookup [OF assms] by simp
  then show "obj_get ob k = Some v" by (simp add: obj_get_def)
qed

lemma clean_obj_get_None:
  assumes "clean ob"
  shows "obj_get ob k = None \<longleftrightarrow> k \<notin> fst ` set ob"
proof (cases "map_of ob k")
  case None
  then have "k \<notin> fst ` set ob" by (simp add: map_of_eq_None_iff)
  with None show ?thesis by (simp add: obj_get_def)
next
  case (Some x)
  then have m: "(k, x) \<in> set ob" by (rule map_of_SomeD)
  with assms obtain v where "x = Some v" by (rule clean_value)
  with Some m show ?thesis by (force simp: obj_get_def)
qed

lemma clean_truthy:
  assumes "clean ob"
  shows "truthy (obj_get ob k) \<longleftrightarrow> k \<in> fst ` set ob"
proof (cases "obj_get ob k")
  case None
  then have "k \<notin> fst ` set ob" using clean_obj_get_None [OF assms, of k] by simp
  with None show ?thesis by (simp add: truthy_def)
next
  case (Some v)
  then have m: "(k, Some v) \<in> set ob" using clean_obj_get [OF assms] by simp
  with assms obtain v' where "Some v = Some v'" "v' \<noteq> []" by (rule clean_value)
  with Some m show ?thesis by (force simp: truthy_def)
qed

text \<open>Validation of a clean object that has what validation adds.\<close>

lemma foldl_keep_clean:
  assumes "distinct (map fst (acc @ xs))" "\<forall>e \<in> set xs. settled e"
    "S ''__proto__'' \<notin> fst ` set xs"
  shows "foldl keep acc xs = acc @ xs"
  using assms
proof (induction xs arbitrary: acc)
  case Nil
  then show ?case by simp
next
  case (Cons x xs)
  obtain k y where x: "x = (k, y)" by (cases x)
  from Cons.prems(2) x have "settled (k, y)" by simp
  then obtain v where v: "y = Some v" "spec_entry_value (k, Some v) = Some v"
    by (rule settled_value)
  from Cons.prems(3) x have kp: "k \<noteq> S ''__proto__''" by auto
  from Cons.prems(1) x have fresh: "k \<notin> fst ` set acc" by auto
  have step: "keep acc x = acc @ [x]"
    using kp by (simp add: keep_def x v obj_set_def obj_put_new [OF fresh])
  have "foldl keep (acc @ [x]) xs = (acc @ [x]) @ xs"
    using Cons.prems by (intro Cons.IH) auto
  then show ?case by (simp add: step)
qed

lemma clean_Object_entries: "clean ob \<Longrightarrow> clean (Object_entries ob)"
  by (simp add: clean_def distinct_Object_entries set_Object_entries)

lemma obj_get_Object_entries:
  "distinct (map fst ob) \<Longrightarrow> obj_get (Object_entries ob) k = obj_get ob k"
  by (simp add: obj_get_def map_of_Object_entries)

lemma validate_clean:
  assumes c: "clean ob"
    and pa: "S ''pa'' \<in> fst ` set ob" and pn: "S ''pn'' \<in> fst ` set ob"
    and cu: "S ''am'' \<in> fst ` set ob \<longrightarrow> S ''cu'' \<in> fst ` set ob"
  shows "validateUpiParams ob =
           \<lparr>isValid = True, errors = [], normalizedParams = Object_entries ob\<rparr>"
proof -
  have co: "clean (Object_entries ob)" using c by (rule clean_Object_entries)
  have d: "distinct (map fst ob)" using c by (simp add: clean_def)
  have fold: "foldl keep [] (Object_entries ob) = Object_entries ob"
    using co foldl_keep_clean [of "[]" "Object_entries ob"] by (simp add: clean_def)
  have present: "\<not> isMissing (obj_get ob k)" if "k \<in> fst ` set ob" for k
  proof -
    from that obtain x where m: "(k, x) \<in> set ob" by auto
    with c obtain v where v: "x = Some v" "v \<noteq> []" "trim v = v" by (rule clean_value)
    from m v(1) have "obj_get ob k = Some v" using clean_obj_get [OF c] by simp
    with v show ?thesis by (simp add: isMissing_def)
  qed
  have req: "spec_required_errors ob = []"
    using present [OF pa] present [OF pn] by (simp add: spec_required_errors_def)
  have "spec_entry_errors e = []" if "e \<in> set (Object_entries ob)" for e
    using that co settled_no_errors by (auto simp: clean_def)
  then have ent: "concat (map spec_entry_errors (Object_entries ob)) = []" by simp
  have errs: "errors (validateUpiParams ob) = []"
    by (simp add: errors_validateUpiParams req ent)
  have keys: "fst ` set (Object_entries ob) = fst ` set ob" by (simp add: set_Object_entries)
  have "truthy (obj_get (Object_entries ob) (S ''am'')) \<longrightarrow>
        truthy (obj_get (Object_entries ob) (S ''cu''))"
    using cu by (simp add: clean_truthy [OF co] keys)
  then have norm: "normalizedParams (validateUpiParams ob) = Object_entries ob"
    by (auto simp: normalizedParams_validateUpiParams Let_def fold)
  have valid: "isValid (validateUpiParams ob)"
    by (simp add: isValid_validateUpiParams errs)
  show ?thesis using errs norm valid by (cases "validateUpiParams ob") simp
qed

text \<open>What validity of the input says about the normalized map.\<close>

lemma normalized_currency:
  "S ''am'' \<in> fst ` set (normalizedParams (validateUpiParams p)) \<Longrightarrow>
   S ''cu'' \<in> fst ` set (normalizedParams (validateUpiParams p))"
proof -
  let ?np = "normalizedParams (validateUpiParams p)"
  let ?norm = "foldl keep [] (Object_entries p)"
  have cn: "clean ?norm" by (simp add: clean_foldl_keep clean_Nil)
  assume am: "S ''am'' \<in> fst ` set ?np"
  show "S ''cu'' \<in> fst ` set ?np"
  proof (cases "truthy (obj_get ?norm (S ''am'')) \<and> \<not> truthy (obj_get ?norm (S ''cu''))")
    case True
    then have "?np = obj_set ?norm (S ''cu'') (Some (S ''INR''))"
      by (simp add: normalizedParams_validateUpiParams Let_def)
    then show ?thesis by (simp add: obj_set_def keys_obj_put am_cu_not_proto)
  next
    case False
    then have e: "?np = ?norm" by (auto simp: normalizedParams_validateUpiParams Let_def)
    from False have "S ''am'' \<in> fst ` set ?norm \<longrightarrow> S ''cu'' \<in> fst ` set ?norm"
      by (simp add: clean_truthy [OF cn])
    with am e show ?thesis by simp
  qed
qed

lemma valid_required:
  assumes "distinct (map fst p)" "isValid (validateUpiParams p)"
    and "k = S ''pa'' \<or> k = S ''pn''"
  shows "\<exists>v. map_of p k = Some (Some v) \<and> trim v \<noteq> [] \<and>
             map_of (normalizedParams (validateUpiParams p)) k = Some (Some (trim v))"
proof -
  from assms(2) have e: "errors (validateUpiParams p) = []"
    by (simp add: isValid_validateUpiParams)
  then have req: "spec_required_errors p = []"
    and ent: "concat (map spec_entry_errors (Object_entries p)) = []"
    by (simp_all add: errors_validateUpiParams)
  from req assms(3) have "\<not> isMissing (obj_get p k)"
    by (auto simp: spec_required_errors_def split: if_splits)
  then obtain v where v: "map_of p k = Some (Some v)" "trim v \<noteq> []"
    by (auto simp: isMissing_def obj_get_def split: option.splits)
  then have "(k, Some v) \<in> set (Object_entries p)"
    by (auto simp: set_Object_entries dest: map_of_SomeD)
  with ent have ne: "spec_entry_errors (k, Some v) = []" by auto
  have val: "spec_entry_value (k, Some v) = Some (trim v)"
    using ne v(2)
    by (auto simp: spec_entry_errors_def spec_entry_value_def split: option.splits if_splits)
  have kp: "k \<noteq> S ''__proto__''" "k \<noteq> S ''cu''"
    using assms(3) by (auto simp: S_def unit_of_def)
  have "map_of (normalizedParams (validateUpiParams p)) k = Some (Some (trim v))"
    using kp v(1) val by (simp add: own_normalizedParams [OF assms(1)] spec_kept_def)
  with v show ?thesis by blast
qed

subsection \<open>Lists built by concatenation of at most one pair for each key\<close>

lemma short_distinct: "length l \<le> Suc 0 \<Longrightarrow> distinct l"
  by (cases l) auto

lemma keys_concat:
  assumes "\<And>x k v. (k, v) \<in> set (g x) \<Longrightarrow> k = h x"
    and "(k, v) \<in> set (concat (map g xs))"
  shows "k \<in> h ` set xs"
proof -
  from assms(2) obtain x where "x \<in> set xs" "(k, v) \<in> set (g x)" by auto
  with assms(1) show ?thesis by blast
qed

lemma distinct_concat_keys:
  assumes "distinct (map h xs)"
    and sub: "\<And>x k v. (k, v) \<in> set (g x) \<Longrightarrow> k = h x"
    and short: "\<And>x. length (g x) \<le> Suc 0"
  shows "distinct (map fst (concat (map g xs)))"
  using assms(1)
proof (induction xs)
  case Nil
  then show ?case by simp
next
  case (Cons x xs)
  have 1: "distinct (map fst (g x))"
    using short [of x] by (intro short_distinct) simp
  have 2: "distinct (map fst (concat (map g xs)))" using Cons by simp
  have nx: "h x \<notin> h ` set xs" using Cons.prems by auto
  have 3: "fst ` set (g x) \<inter> fst ` set (concat (map g xs)) = {}"
  proof (rule ccontr)
    assume "fst ` set (g x) \<inter> fst ` set (concat (map g xs)) \<noteq> {}"
    then obtain k v w where a: "(k, v) \<in> set (g x)" and b: "(k, w) \<in> set (concat (map g xs))"
      by fastforce
    from sub [OF a] have "k = h x" .
    moreover from keys_concat [of g h, OF sub b] have "k \<in> h ` set xs" .
    ultimately show False using nx by simp
  qed
  show ?case using 1 2 3 by simp
qed

lemma distinct_orderedKeys: "distinct orderedKeys"
  by (simp add: orderedKeys_def S_def unit_of_def)

subsection \<open>The pairs that buildUpiUri appends, for a clean map\<close>

lemma set_orderedPairs:
  assumes "clean ob"
  shows "set (orderedPairs ob) = {(k, v). k \<in> set orderedKeys \<and> (k, Some v) \<in> set ob}"
proof -
  have "(k', v) \<in> set (case obj_get ob k of None \<Rightarrow> []
                         | Some value \<Rightarrow> if value \<noteq> [] then [(k, value)] else []) \<longleftrightarrow>
        k' = k \<and> (k, Some v) \<in> set ob" for k k' v
  proof (cases "obj_get ob k")
    case None
    then have "k \<notin> fst ` set ob" using clean_obj_get_None [OF assms] by simp
    with None show ?thesis by force
  next
    case (Some w)
    then have m: "(k, Some w) \<in> set ob" using clean_obj_get [OF assms] by simp
    with assms obtain w' where "Some w = Some w'" "w' \<noteq> []" by (rule clean_value)
    then have ne: "w \<noteq> []" by simp
    have "(k, Some v) \<in> set ob \<longleftrightarrow> v = w"
      using Some clean_obj_get [OF assms, of k v] by auto
    with Some ne show ?thesis by auto
  qed
  then show ?thesis by (auto simp: orderedPairs_def)
qed

lemma distinct_orderedPairs: "distinct (map fst (orderedPairs ob))"
  unfolding orderedPairs_def
proof (rule distinct_concat_keys [where h = "\<lambda>k. k"])
  show "distinct (map (\<lambda>k. k) orderedKeys)" using distinct_orderedKeys by simp
next
  fix x k v
  assume "(k, v) \<in> set (case obj_get ob x of None \<Rightarrow> []
                      | Some value \<Rightarrow> if value \<noteq> [] then [(x, value)] else [])"
  then show "k = x" by (auto split: option.splits if_splits)
next
  fix x
  show "length (case obj_get ob x of None \<Rightarrow> []
                | Some value \<Rightarrow> if value \<noteq> [] then [(x, value)] else []) \<le> Suc 0"
    by (simp split: option.splits)
qed

lemma set_additionalPairs:
  assumes "clean ob"
  shows "set (additionalPairs ob) = {(k, v). k \<notin> set orderedKeys \<and> (k, Some v) \<in> set ob}"
proof (intro set_eqI iffI)
  fix e assume "e \<in> set (additionalPairs ob)"
  then show "e \<in> {(k, v). k \<notin> set orderedKeys \<and> (k, Some v) \<in> set ob}"
    by (auto simp: additionalPairs_def set_Object_entries split: option.splits if_splits)
next
  fix e assume "e \<in> {(k, v). k \<notin> set orderedKeys \<and> (k, Some v) \<in> set ob}"
  then obtain k v where e: "e = (k, v)" "k \<notin> set orderedKeys" "(k, Some v) \<in> set ob"
    by auto
  from assms e(3) obtain v' where "Some v = Some v'" "v' \<noteq> []" by (rule clean_value)
  then have ne: "v \<noteq> []" by simp
  let ?g = "\<lambda>(key, value). case value of None \<Rightarrow> []
               | Some v \<Rightarrow> if key \<notin> set orderedKeys \<and> v \<noteq> [] then [(key, v)] else []"
  have "(k, v) \<in> set (?g (k, Some v))" using e(2) ne by simp
  moreover have "(k, Some v) \<in> set (Object_entries ob)" using e(3) by (simp add: set_Object_entries)
  ultimately have "(k, v) \<in> set (concat (map ?g (Object_entries ob)))"
    unfolding set_concat set_map by blast
  then show "e \<in> set (additionalPairs ob)" by (simp add: additionalPairs_def e(1))
qed

lemma distinct_additionalPairs:
  assumes "distinct (map fst ob)"
  shows "distinct (map fst (additionalPairs ob))"
  unfolding additionalPairs_def
proof (rule distinct_concat_keys [where h = fst])
  show "distinct (map fst (Object_entries ob))"
    using assms by (simp add: distinct_Object_entries)
next
  fix x :: "jstring \<times> jstring option" and k v
  assume "(k, v) \<in> set (case x of (key, value) \<Rightarrow>
               (case value of None \<Rightarrow> []
                | Some v \<Rightarrow> if key \<notin> set orderedKeys \<and> v \<noteq> [] then [(key, v)] else []))"
  then show "k = fst x" by (auto split: option.splits prod.splits if_splits)
next
  fix x :: "jstring \<times> jstring option"
  show "length (case x of (key, value) \<Rightarrow>
               (case value of None \<Rightarrow> []
                | Some v \<Rightarrow> if key \<notin> set orderedKeys \<and> v \<noteq> [] then [(key, v)] else [])) \<le> Suc 0"
    by (simp split: option.splits prod.splits)
qed

lemma set_queryPairs:
  assumes "clean ob"
  shows "set (queryPairs ob) = {(k, v). (k, Some v) \<in> set ob}"
  by (auto simp: queryPairs_def set_orderedPairs [OF assms] set_additionalPairs [OF assms])

lemma mem_queryPairs:
  assumes "clean ob"
  shows "(k, v) \<in> set (queryPairs ob) \<longleftrightarrow> (k, Some v) \<in> set ob"
  by (simp add: set_queryPairs [OF assms])

lemma distinct_queryPairs:
  assumes "clean ob"
  shows "distinct (map fst (queryPairs ob))"
proof -
  have d: "distinct (map fst ob)" using assms by (simp add: clean_def)
  have "fst ` set (orderedPairs ob) \<inter> fst ` set (additionalPairs ob) = {}"
    by (auto simp: set_orderedPairs [OF assms] set_additionalPairs [OF assms])
  then show ?thesis
    by (simp add: queryPairs_def distinct_orderedPairs distinct_additionalPairs [OF d])
qed

lemma wrap_mem: "(k, x) \<in> set (wrap qs) \<longleftrightarrow> (\<exists>v. x = Some v \<and> (k, v) \<in> set qs)"
  by (induction qs) (auto simp: wrap_def)

lemma set_wrap_queryPairs:
  assumes "clean ob"
  shows "set (wrap (queryPairs ob)) = set ob"
proof (intro set_eqI iffI)
  fix e assume a: "e \<in> set (wrap (queryPairs ob))"
  obtain k x where kx: "e = (k, x)" by (cases e)
  from a show "e \<in> set ob"
    unfolding kx by (auto simp: wrap_mem set_queryPairs [OF assms])
next
  fix e assume e: "e \<in> set ob"
  obtain k x where kx: "e = (k, x)" by (cases e)
  with e assms obtain v where "x = Some v" by (auto elim: clean_value)
  with e kx show "e \<in> set (wrap (queryPairs ob))"
    by (simp add: wrap_mem set_queryPairs [OF assms])
qed

lemma keys_wrap: "map fst (wrap qs) = map fst qs"
  by (induction qs) (auto simp: wrap_def)

lemma clean_wrap_queryPairs:
  assumes "clean ob"
  shows "clean (wrap (queryPairs ob))"
  using assms distinct_queryPairs [OF assms] set_wrap_queryPairs [OF assms]
  by (simp add: clean_def keys_wrap)

lemma map_of_wrap_queryPairs:
  assumes "clean ob"
  shows "map_of (wrap (queryPairs ob)) = map_of ob"
proof (rule map_of_inject_set [THEN iffD2])
  show "distinct (map fst (wrap (queryPairs ob)))"
    using distinct_queryPairs [OF assms] by (simp add: keys_wrap)
  show "distinct (map fst ob)" using assms by (simp add: clean_def)
  show "set (wrap (queryPairs ob)) = set ob" using assms by (rule set_wrap_queryPairs)
qed

subsection \<open>Collecting the decoded entries\<close>

lemma collect_fresh:
  assumes "distinct (map fst acc @ map fst qs)" "S ''__proto__'' \<notin> fst ` set qs"
  shows "foldl (\<lambda>ps (key, value). obj_set ps key (Some value)) acc qs = acc @ wrap qs"
  using assms
proof (induction qs arbitrary: acc)
  case Nil
  then show ?case by (simp add: wrap_def)
next
  case (Cons q qs)
  obtain k v where q: "q = (k, v)" by (cases q)
  from Cons.prems q have kp: "k \<noteq> S ''__proto__''" and fresh: "k \<notin> fst ` set acc" by auto
  have step: "obj_set acc k (Some v) = acc @ [(k, Some v)]"
    using kp by (simp add: obj_set_def obj_put_new [OF fresh])
  have "foldl (\<lambda>ps (key, value). obj_set ps key (Some value)) (acc @ [(k, Some v)]) qs =
          (acc @ [(k, Some v)]) @ wrap qs"
    using Cons.prems q by (intro Cons.IH) auto
  then show ?case by (simp add: q step wrap_def)
qed

lemma collectParams_queryPairs:
  assumes "clean ob"
  shows "collectParams (queryPairs ob) = wrap (queryPairs ob)"
proof -
  have "S ''__proto__'' \<notin> fst ` set (queryPairs ob)"
    using assms by (force simp: set_queryPairs [OF assms] clean_def)
  then show ?thesis
    using collect_fresh [of "[]" "queryPairs ob"] distinct_queryPairs [OF assms]
    by (simp add: collectParams_def)
qed

subsection \<open>Strings without unpaired surrogates\<close>

lemma usv_wellFormed: "isWellFormed s \<Longrightarrow> usv s = s"
  by (simp add: usv_def fromCodePoints_codePoints)

lemma whiteSpace_not_surrogate: "isWhiteSpace c \<Longrightarrow> \<not> isSurrogate c"
  by (auto simp: isWhiteSpace_def isSurrogate_def between_def word_le_nat_alt unit_eq_iff)

lemma not_surrogate_not_lead: "\<not> isSurrogate c \<Longrightarrow> \<not> isLead c \<and> \<not> isTrail c"
  by (auto simp: surrogate_nat)

lemma wf_tail: "\<not> isSurrogate c \<Longrightarrow> isWellFormed (c # s) \<longleftrightarrow> isWellFormed s"
  using not_surrogate_not_lead [of c] by (cases s) auto

lemma wf_dropWhile: "isWellFormed s \<Longrightarrow> isWellFormed (dropWhile isWhiteSpace s)"
  by (induction s) (auto simp: wf_tail whiteSpace_not_surrogate)

lemma wf_butlast:
  "\<not> isSurrogate c \<Longrightarrow> isWellFormed (s @ [c]) \<Longrightarrow> isWellFormed s"
proof (induction s rule: isWellFormed.induct)
  case 1
  then show ?case by simp
next
  case (2 x)
  then show ?case using not_surrogate_not_lead [of c] by (auto split: if_splits)
next
  case (3 x y r)
  then show ?case by (auto split: if_splits)
qed

lemma wf_strip_end: "isWellFormed s \<Longrightarrow> isWellFormed (rev (dropWhile isWhiteSpace (rev s)))"
proof (induction s rule: rev_induct)
  case Nil
  then show ?case by simp
next
  case (snoc x xs)
  show ?case
  proof (cases "isWhiteSpace x")
    case True
    then have "isWellFormed xs"
      using snoc.prems wf_butlast whiteSpace_not_surrogate by blast
    then show ?thesis using True snoc.IH by simp
  next
    case False
    then show ?thesis using snoc.prems by simp
  qed
qed

lemma wf_trim: "isWellFormed s \<Longrightarrow> isWellFormed (trim s)"
  unfolding trim_def by (intro wf_strip_end wf_dropWhile)

lemma wf_literals: "isWellFormed (S ''cu'')" "isWellFormed (S ''INR'')"
  by (simp_all add: S_def unit_of_def isLead_def isTrail_def isSurrogate_def between_def)

lemma wf_normalized:
  assumes d: "distinct (map fst p)" and wf: "wellFormedParams p"
    and e: "(k, Some v) \<in> set (normalizedParams (validateUpiParams p))"
  shows "isWellFormed k \<and> isWellFormed v"
proof -
  let ?np = "normalizedParams (validateUpiParams p)"
  have c: "clean ?np" by (rule clean_normalized)
  from e have m: "map_of ?np k = Some (Some v)" using clean_lookup [OF c] by simp
  show ?thesis
  proof (cases "k = S ''cu'' \<and> spec_kept p (S ''am'') \<noteq> None \<and> spec_kept p (S ''cu'') = None")
    case True
    with m have "v = S ''INR''"
      by (simp add: own_normalizedParams [OF d] am_cu_not_proto split: if_splits)
    with True show ?thesis by (simp add: wf_literals)
  next
    case False
    with m have "spec_kept p k = Some v"
      by (auto simp: own_normalizedParams [OF d] split: if_splits)
    then obtain x where x: "map_of p k = Some x" "spec_entry_value (k, x) = Some v"
      by (auto simp: spec_kept_def split: option.splits)
    from spec_entry_value_trimmed [OF x(2)] obtain w where
      w: "x = Some w" "v = trim w" by auto
    from x(1) w(1) have "(k, Some w) \<in> set p" by (auto dest: map_of_SomeD)
    with wf have "isWellFormed k" "isWellFormed w" by (auto simp: wellFormedParams_def)
    with w(2) show ?thesis by (simp add: wf_trim)
  qed
qed

lemma usv_queryPairs:
  assumes d: "distinct (map fst p)" and wf: "wellFormedParams p"
  shows "map (\<lambda>nv. (usv (fst nv), usv (snd nv)))
           (queryPairs (normalizedParams (validateUpiParams p))) =
         queryPairs (normalizedParams (validateUpiParams p))"
proof -
  let ?np = "normalizedParams (validateUpiParams p)"
  have c: "clean ?np" by (rule clean_normalized)
  have "(usv (fst nv), usv (snd nv)) = nv" if "nv \<in> set (queryPairs ?np)" for nv
  proof -
    obtain k v where kv: "nv = (k, v)" by (cases nv)
    with that have "(k, Some v) \<in> set ?np" by (simp add: set_queryPairs [OF c])
    from wf_normalized [OF d wf this] kv show ?thesis by (simp add: usv_wellFormed)
  qed
  then show ?thesis by (simp add: map_idI)
qed

lemma toString_nonempty: "ps \<noteq> [] \<Longrightarrow> URLSearchParams_toString ps \<noteq> []"
proof -
  assume "ps \<noteq> []"
  then obtain q qs where ps: "ps = q # qs" by (cases ps) auto
  have "piece q \<noteq> []" by (simp add: piece_def S_eq)
  then show ?thesis
    unfolding toString_pieces ps by (cases qs) (simp_all add: S_amp)
qed

subsection \<open>Building and parsing\<close>

lemma required_present:
  assumes "distinct (map fst p)" "isValid (validateUpiParams p)"
  shows "S ''pa'' \<in> fst ` set (normalizedParams (validateUpiParams p))"
    and "S ''pn'' \<in> fst ` set (normalizedParams (validateUpiParams p))"
proof -
  have "k \<in> fst ` set (normalizedParams (validateUpiParams p))"
    if "k = S ''pa'' \<or> k = S ''pn''" for k
  proof -
    from valid_required [OF assms that] obtain v where
      "map_of (normalizedParams (validateUpiParams p)) k = Some (Some (trim v))" by blast
    then have "(k, Some (trim v)) \<in> set (normalizedParams (validateUpiParams p))"
      by (rule map_of_SomeD)
    then show ?thesis by force
  qed
  then show "S ''pa'' \<in> fst ` set (normalizedParams (validateUpiParams p))"
    and "S ''pn'' \<in> fst ` set (normalizedParams (validateUpiParams p))" by simp_all
qed

lemma keys_queryPairs:
  assumes "clean ob"
  shows "fst ` set (queryPairs ob) = fst ` set ob"
proof -
  have "fst ` set (wrap (queryPairs ob)) = fst ` set ob"
    by (simp add: set_wrap_queryPairs [OF assms])
  moreover have "fst ` set (wrap (queryPairs ob)) = fst ` set (queryPairs ob)"
    using keys_wrap [of "queryPairs ob"] by (metis set_map)
  ultimately show ?thesis by simp
qed

lemma queryPairs_nonempty:
  assumes "distinct (map fst p)" "isValid (validateUpiParams p)"
  shows "queryPairs (normalizedParams (validateUpiParams p)) \<noteq> []"
proof -
  have "S ''pa'' \<in> fst ` set (queryPairs (normalizedParams (validateUpiParams p)))"
    using required_present(1) [OF assms] by (simp add: keys_queryPairs [OF clean_normalized])
  then show ?thesis by auto
qed

lemma buildUpiUri_valid:
  assumes "distinct (map fst p)" "isValid (validateUpiParams p)"
  shows "buildUpiUri p a =
           Inr (S ''upi://'' @ action_text a @ S ''?'' @
                URLSearchParams_toString (queryPairs (normalizedParams (validateUpiParams p))))"
  using assms(2) toString_nonempty [OF queryPairs_nonempty [OF assms]]
  by (simp add: buildUpiUri_def Let_def queryPairs_def)

lemma action_of_host: "(if action_text a = S ''pay'' then Pay else Mandate) = a"
  using S_pay_neq_mandate by (cases a) auto

lemma parseUpiUri_built:
  assumes d: "distinct (map fst p)" and valid: "isValid (validateUpiParams p)"
    and wf: "wellFormedParams p"
  shows "parseUpiUri (S ''upi://'' @ action_text a @ S ''?'' @
           URLSearchParams_toString (queryPairs (normalizedParams (validateUpiParams p)))) =
         Inr (a, Object_entries (wrap (queryPairs (normalizedParams (validateUpiParams p)))))"
proof -
  let ?np = "normalizedParams (validateUpiParams p)"
  let ?qs = "queryPairs ?np"
  let ?u = "S ''upi://'' @ action_text a @ S ''?'' @ URLSearchParams_toString ?qs"
  have c: "clean ?np" by (rule clean_normalized)
  have cw: "clean (wrap ?qs)" using c by (rule clean_wrap_queryPairs)
  have keys: "fst ` set (wrap ?qs) = fst ` set ?np" by (simp add: set_wrap_queryPairs [OF c])
  have url: "new_URL ?u = Url \<lparr>protocol = S ''upi:'', hostname = action_text a,
                               searchParams = ?qs\<rparr>"
    using new_URL_built [OF queryPairs_nonempty [OF d valid], of a]
    by (simp add: usv_queryPairs [OF d wf])
  have v: "validateUpiParams (wrap ?qs) =
             \<lparr>isValid = True, errors = [], normalizedParams = Object_entries (wrap ?qs)\<rparr>"
    using cw
  proof (rule validate_clean)
    show "S ''pa'' \<in> fst ` set (wrap ?qs)" unfolding keys by (rule required_present(1) [OF d valid])
    show "S ''pn'' \<in> fst ` set (wrap ?qs)" unfolding keys by (rule required_present(2) [OF d valid])
    show "S ''am'' \<in> fst ` set (wrap ?qs) \<longrightarrow> S ''cu'' \<in> fst ` set (wrap ?qs)"
      unfolding keys using normalized_currency by blast
  qed
  have host: "\<not> (action_text a \<noteq> S ''pay'' \<and> action_text a \<noteq> S ''mandate'')"
    by (cases a) simp_all
  show ?thesis
    unfolding parseUpiUri_def url
    using host by (simp add: collectParams_queryPairs [OF c] v action_of_host)
qed

text \<open>
  C1, as stated, fails for a value with a surrogate code unit outside a pair. Such a value
  passes validation as it is, but \<^verbatim>\<open>URLSearchParams\<close> takes its arguments as scalar
  value strings: the URI is built with U+FFFD in its place, and parsing returns U+FFFD.
\<close>

theorem C1_unpaired_surrogate_counterexample:
  "isValid (validateUpiParams [(S ''pa'', Some (S ''a@b'')), (S ''pn'', Some [0xD800])]) \<and>
   normalizedParams (validateUpiParams [(S ''pa'', Some (S ''a@b'')), (S ''pn'', Some [0xD800])]) =
     [(S ''pa'', Some (S ''a@b'')), (S ''pn'', Some [0xD800])] \<and>
   buildUpiUri [(S ''pa'', Some (S ''a@b'')), (S ''pn'', Some [0xD800])] Pay =
     Inr (S ''upi://pay?pa=a%40b&pn=%EF%BF%BD'') \<and>
   parseUpiUri (S ''upi://pay?pa=a%40b&pn=%EF%BF%BD'') =
     Inr (Pay, [(S ''pa'', Some (S ''a@b'')), (S ''pn'', Some [0xFFFD])])"
proof -
  have v: "validateUpiParams [(S ''pa'', Some (S ''a@b'')), (S ''pn'', Some [0xD800])] =
      \<lparr>isValid = True, errors = [],
       normalizedParams = [(S ''pa'', Some (S ''a@b'')), (S ''pn'', Some [0xD800])]\<rparr>"
    by (simp add: ev)
  have b: "buildUpiUri [(S ''pa'', Some (S ''a@b'')), (S ''pn'', Some [0xD800])] Pay =
     Inr (S ''upi://pay?pa=a%40b&pn=%EF%BF%BD'')"
    unfolding buildUpiUri_def v by (simp add: ev ev_url)
  have p: "parseUpiUri (S ''upi://pay?pa=a%40b&pn=%EF%BF%BD'') =
     Inr (Pay, [(S ''pa'', Some (S ''a@b'')), (S ''pn'', Some [0xFFFD])])"
    by (simp add: ev ev_url)
  from v b p show ?thesis by simp
qed

text \<open>
  C1, amended: for a parameter set (an object, its keys distinct) that validates and whose
  keys and values contain no surrogate outside a pair, and for both actions,
  \<open>buildUpiUri\<close> returns a URI, \<open>parseUpiUri\<close> returns a result on it, the action of
  the result is the action given, and its parameters have the same properties with the
  same values as the normalized parameters of the set. (The keys may come in another
  order: the URI lists the recognized keys first.)
\<close>

theorem C1_round_trip:
  assumes "distinct (map fst p)" and "isValid (validateUpiParams p)" and "wellFormedParams p"
  shows "\<exists>u ps. buildUpiUri p a = Inr u \<and> parseUpiUri u = Inr (a, ps) \<and>
                map_of ps = map_of (normalizedParams (validateUpiParams p))"
proof -
  let ?np = "normalizedParams (validateUpiParams p)"
  let ?qs = "queryPairs ?np"
  have c: "clean ?np" by (rule clean_normalized)
  have "distinct (map fst (wrap ?qs))"
    using distinct_queryPairs [OF c] by (simp add: keys_wrap)
  then have "map_of (Object_entries (wrap ?qs)) = map_of (wrap ?qs)"
    by (rule map_of_Object_entries)
  then have "map_of (Object_entries (wrap ?qs)) = map_of ?np"
    by (simp add: map_of_wrap_queryPairs [OF c])
  with buildUpiUri_valid [OF assms(1,2), of a] parseUpiUri_built [OF assms, of a]
  show ?thesis by blast
qed

theorem C1_round_trip_witness:
  "buildUpiUri [(S ''pn'', Some (S '' x '')), (S ''pa'', Some (S ''a@b'')),
                (S ''am'', Some (S ''1'')), (S ''zz'', Some (S ''q''))] Mandate =
     Inr (S ''upi://mandate?pa=a%40b&pn=x&am=1&cu=INR&zz=q'') \<and>
   (\<exists>ps. parseUpiUri (S ''upi://mandate?pa=a%40b&pn=x&am=1&cu=INR&zz=q'') = Inr (Mandate, ps) \<and>
         map_of ps =
           map_of (normalizedParams (validateUpiParams
             [(S ''pn'', Some (S '' x '')), (S ''pa'', Some (S ''a@b'')),
              (S ''am'', Some (S ''1'')), (S ''zz'', Some (S ''q''))])))"
proof -
  let ?p = "[(S ''pn'', Some (S '' x '')), (S ''pa'', Some (S ''a@b'')),
             (S ''am'', Some (S ''1'')), (S ''zz'', Some (S ''q''))]"
  have v: "validateUpiParams ?p =
      \<lparr>isValid = True, errors = [],
       normalizedParams = [(S ''pn'', Some (S ''x'')), (S ''pa'', Some (S ''a@b'')),
                           (S ''am'', Some (S ''1'')), (S ''zz'', Some (S ''q'')),
                           (S ''cu'', Some (S ''INR''))]\<rparr>"
    by (simp add: ev)
  have 1: "distinct (map fst ?p)" by (simp add: S_def unit_of_def)
  have 2: "isValid (validateUpiParams ?p)" by (simp add: v)
  have 3: "wellFormedParams ?p"
    by (simp add: wellFormedParams_def S_def unit_of_def isLead_def isTrail_def isSurrogate_def
        between_def)
  have b: "buildUpiUri ?p Mandate = Inr (S ''upi://mandate?pa=a%40b&pn=x&am=1&cu=INR&zz=q'')"
    unfolding buildUpiUri_def v by (simp add: ev ev_url)
  from C1_round_trip [OF 1 2 3, of Mandate] b show ?thesis by auto
qed

lemma keys_normalized:
  assumes "distinct (map fst p)" "k \<in> fst ` set (normalizedParams (validateUpiParams p))"
  shows "k \<in> fst ` set p \<or> k = S ''cu''"
proof -
  let ?np = "normalizedParams (validateUpiParams p)"
  from assms(2) obtain x where "(k, x) \<in> set ?np" by auto
  then have m: "map_of ?np k = Some x" using clean_lookup [OF clean_normalized] by simp
  show ?thesis
  proof (cases "k = S ''cu''")
    case True
    then show ?thesis by simp
  next
    case False
    with m have "spec_kept p k \<noteq> None"
      by (auto simp: own_normalizedParams [OF assms(1)] split: if_splits)
    then have "map_of p k \<noteq> None" by (auto simp: spec_kept_def split: option.splits)
    then show ?thesis by (auto simp: map_of_eq_None_iff)
  qed
qed

lemma cu_not_index: "\<not> isArrayIndex (S ''cu'')"
  by (simp add: isArrayIndex_def isDigit_def between_def S_def unit_of_def)

lemma definedPairs_wrap:
  assumes "\<forall>kv \<in> set qs. \<not> isArrayIndex (fst kv)" "\<forall>kv \<in> set qs. snd kv \<noteq> []"
  shows "definedPairs (wrap qs) = qs"
proof -
  have plain: "Object_entries (wrap qs) = wrap qs"
    using assms(1) by (intro Object_entries_plain) (auto simp: wrap_def)
  have "concat (map (\<lambda>(key, value). case value of None \<Rightarrow> []
                       | Some v \<Rightarrow> if v \<noteq> [] then [(key, v)] else []) (wrap qs)) = qs"
    using assms(2) by (induction qs) (auto simp: wrap_def)
  then show ?thesis by (simp add: definedPairs_def plain)
qed

text \<open>
  C2, as stated, fails: the URL returned is not the string given but a URI written anew
  from the parsed and normalized parameters. A URI with an amount and no currency comes
  back with \<^verbatim>\<open>cu=INR\<close> added.
\<close>

theorem C2_default_currency_counterexample:
  "parseUpiUri (S ''upi://pay?pa=a%40b&pn=x&am=1'') =
     Inr (Pay, [(S ''pa'', Some (S ''a@b'')), (S ''pn'', Some (S ''x'')),
                (S ''am'', Some (S ''1'')), (S ''cu'', Some (S ''INR''))]) \<and>
   buildAppLink sampleApps (genericOptions (S ''upi://pay?pa=a%40b&pn=x&am=1'') None) =
     Inr \<lparr>url = S ''upi://pay?pa=a%40b&pn=x&am=1&cu=INR'', link_fallbackUrl = None,
          link_app = \<lparr>info_id = Generic, info_label = S ''UPI'', verified = True\<rparr>,
          link_platform = Android, link_action = Pay\<rparr> \<and>
   S ''upi://pay?pa=a%40b&pn=x&am=1&cu=INR'' \<noteq> S ''upi://pay?pa=a%40b&pn=x&am=1''"
proof -
  have p: "parseUpiUri (S ''upi://pay?pa=a%40b&pn=x&am=1'') =
     Inr (Pay, [(S ''pa'', Some (S ''a@b'')), (S ''pn'', Some (S ''x'')),
                (S ''am'', Some (S ''1'')), (S ''cu'', Some (S ''INR''))])"
    by (simp add: ev ev_url)
  have q: "extractQueryFromUri (S ''upi://pay?pa=a%40b&pn=x&am=1'') =
             Inr (S ''pa=a%40b&pn=x&am=1&cu=INR'')"
    unfolding extractQueryFromUri_def p by (simp add: ev ev_url definedPairs_def)
  have l: "buildAppLink sampleApps (genericOptions (S ''upi://pay?pa=a%40b&pn=x&am=1'') None) =
     Inr \<lparr>url = S ''upi://pay?pa=a%40b&pn=x&am=1&cu=INR'', link_fallbackUrl = None,
          link_app = \<lparr>info_id = Generic, info_label = S ''UPI'', verified = True\<rparr>,
          link_platform = Android, link_action = Pay\<rparr>"
  proof -
    have ne: "S ''upi://pay?pa=a%40b&pn=x&am=1'' \<noteq> []" by (simp add: S_def)
    have lit: "S ''upi://'' @ S ''pay'' @ S ''?'' @ S ''pa=a%40b&pn=x&am=1&cu=INR'' =
               S ''upi://pay?pa=a%40b&pn=x&am=1&cu=INR''"
      by (simp add: S_def)
    show ?thesis
      unfolding buildAppLink_def resolveBaseUri_def genericOptions_def
      by (simp add: q ne lit truthy_def getAllApps_def getApp_def getStoreUrl_def
          buildAndroidIntentUrl_def genericUri_def sampleApps_def)
  qed
  have n: "S ''upi://pay?pa=a%40b&pn=x&am=1&cu=INR'' \<noteq> S ''upi://pay?pa=a%40b&pn=x&am=1''"
    by (simp add: S_def)
  from p l n show ?thesis by (intro conjI)
qed

text \<open>
  C2, amended: the URIs that come back unchanged are those in the form that
  \<open>buildUpiUri\<close> writes. Let \<open>u\<close> be the URI that \<open>buildUpiUri\<close> returns for an
  action and a parameter set that validates, whose keys and values contain no surrogate
  outside a pair and whose keys are not array indices. On a registry whose entry
  \<open>generic\<close> has no Android package, \<open>buildAppLink\<close> for the app \<open>generic\<close>, the
  URI \<open>u\<close>, the platform Android and that action (which may be left out when it is
  \<open>pay\<close>) returns a link whose URL is \<open>u\<close>.
\<close>

theorem C2_generic_android_canonical:
  assumes "distinct (map fst p)" and "isValid (validateUpiParams p)" and "wellFormedParams p"
    and "\<forall>k \<in> fst ` set p. \<not> isArrayIndex k"
    and "buildUpiUri p a = Inr u"
    and "getApp apps Generic = Some g" and "\<not> truthy (androidPackage g)"
    and "appId options = Generic" and "upiUri options = Some u"
    and "platform options = Android"
    and "(case action options of None \<Rightarrow> Pay | Some x \<Rightarrow> x) = a"
  shows "\<exists>r. buildAppLink apps options = Inr r \<and> url r = u"
proof -
  let ?np = "normalizedParams (validateUpiParams p)"
  let ?qs = "queryPairs ?np"
  have c: "clean ?np" by (rule clean_normalized)
  have u: "u = S ''upi://'' @ action_text a @ S ''?'' @ URLSearchParams_toString ?qs"
    using buildUpiUri_valid [OF assms(1,2), of a] assms(5) by simp
  have plainkeys: "\<not> isArrayIndex k" if "k \<in> fst ` set ?qs" for k
  proof -
    from that have "k \<in> fst ` set ?np" by (simp add: keys_queryPairs [OF c])
    from keys_normalized [OF assms(1) this] assms(4) cu_not_index show ?thesis by auto
  qed
  have plain: "\<forall>kv \<in> set ?qs. \<not> isArrayIndex (fst kv)" using plainkeys by auto
  have nonempty: "\<forall>kv \<in> set ?qs. snd kv \<noteq> []"
  proof
    fix kv assume "kv \<in> set ?qs"
    then have "(fst kv, Some (snd kv)) \<in> set ?np"
      using mem_queryPairs [OF c, of "fst kv" "snd kv"] by simp
    with c obtain v where "Some (snd kv) = Some v" "v \<noteq> []" by (rule clean_value)
    then show "snd kv \<noteq> []" by simp
  qed
  have entries: "Object_entries (wrap ?qs) = wrap ?qs"
    using plain by (intro Object_entries_plain) (auto simp: wrap_def)
  have parsed: "parseUpiUri u = Inr (a, wrap ?qs)"
    using parseUpiUri_built [OF assms(1,2,3), of a] by (simp add: u entries)
  have q: "extractQueryFromUri u = Inr (URLSearchParams_toString ?qs)"
    by (simp add: extractQueryFromUri_def parsed definedPairs_wrap [OF plain nonempty])
  have t: "truthy (upiUri options)" by (simp add: assms(9) truthy_def u S_def)
  have base: "resolveBaseUri options a = Inr u"
    using t by (simp add: resolveBaseUri_def assms(9))
  have generic: "buildAndroidIntentUrl apps Generic (URLSearchParams_toString ?qs) a fb = Inr u"
    for fb
    using assms(7) by (simp add: buildAndroidIntentUrl_def assms(6) genericUri_def u)
  show ?thesis
    using t
    by (simp add: buildAppLink_def Let_def assms(6,8,10,11) base q generic)
qed

theorem C2_generic_android_canonical_witness:
  "buildUpiUri [(S ''pa'', Some (S ''a@b'')), (S ''pn'', Some (S ''x y'')),
                (S ''am'', Some (S ''1''))] Mandate =
     Inr (S ''upi://mandate?pa=a%40b&pn=x+y&am=1&cu=INR'') \<and>
   (\<exists>r. buildAppLink sampleApps
          (genericOptions (S ''upi://mandate?pa=a%40b&pn=x+y&am=1&cu=INR'') (Some Mandate)) =
          Inr r \<and>
        url r = S ''upi://mandate?pa=a%40b&pn=x+y&am=1&cu=INR'')"
proof -
  let ?p = "[(S ''pa'', Some (S ''a@b'')), (S ''pn'', Some (S ''x y'')),
             (S ''am'', Some (S ''1''))]"
  let ?u = "S ''upi://mandate?pa=a%40b&pn=x+y&am=1&cu=INR''"
  let ?g = "\<lparr>app_id = Generic, label = S ''UPI'', androidPackage = None,
        android = \<lparr>pay = S ''upi://pay?{query}'', mandate = S ''upi://mandate?{query}''\<rparr>,
        ios = \<lparr>pay = S ''upi://pay?{query}'', mandate = S ''upi://mandate?{query}''\<rparr>,
        stores = None, status = Verified\<rparr>"
  have v: "validateUpiParams ?p =
      \<lparr>isValid = True, errors = [],
       normalizedParams = [(S ''pa'', Some (S ''a@b'')), (S ''pn'', Some (S ''x y'')),
                           (S ''am'', Some (S ''1'')), (S ''cu'', Some (S ''INR''))]\<rparr>"
    by (simp add: ev)
  have 1: "distinct (map fst ?p)" by (simp add: S_def unit_of_def)
  have 2: "isValid (validateUpiParams ?p)" by (simp add: v)
  have 3: "wellFormedParams ?p"
    by (simp add: wellFormedParams_def S_def unit_of_def isLead_def isTrail_def isSurrogate_def
        between_def)
  have 4: "\<forall>k \<in> fst ` set ?p. \<not> isArrayIndex k"
    by (simp add: isArrayIndex_def isDigit_def between_def S_def unit_of_def)
  have 5: "buildUpiUri ?p Mandate = Inr ?u"
    unfolding buildUpiUri_def v by (simp add: ev ev_url)
  have 6: "getApp sampleApps Generic = Some ?g"
    by (simp add: getApp_def getAllApps_def sampleApps_def)
  have 7: "\<not> truthy (androidPackage ?g)" by (simp add: truthy_def)
  have 8: "appId (genericOptions ?u (Some Mandate)) = Generic"
    and 9: "upiUri (genericOptions ?u (Some Mandate)) = Some ?u"
    and 10: "platform (genericOptions ?u (Some Mandate)) = Android"
    and 11: "(case action (genericOptions ?u (Some Mandate)) of None \<Rightarrow> Pay | Some x \<Rightarrow> x) =
             Mandate"
    by (simp_all add: genericOptions_def)
  from C2_generic_android_canonical [OF 1 2 3 4 5 6 7 8 9 10 11] 5 show ?thesis by blast
qed

subsection \<open>The order of the fields\<close>








end
